theory Spec2Isabelle
  imports Main "HOL-Library.Word"
begin

section \<open>The channel runtime of Flap (runtime/channel.c)\<close>

text \<open>
  The channel is a record guarded by one mutex and two condition variables. Every
  access to its fields happens with the mutex held, and \<^verbatim>\<open>pthread_cond_wait\<close>
  gives the mutex up and takes it again atomically. So a call of
  \<^verbatim>\<open>channel_send\<close> or \<^verbatim>\<open>channel_recv\<close> is a sequence of atomic
  sections: from taking the mutex (at \<^verbatim>\<open>pthread_mutex_lock\<close> or when a wait
  returns) to giving it up (at the next wait or at \<^verbatim>\<open>pthread_mutex_unlock\<close>).
  The embedding has one function per section, and a scheduler that interleaves the
  sections of any number of threads.
\<close>

subsection \<open>Data\<close>

text \<open>\<^verbatim>\<open>size_t\<close> on the 64-bit targets of the runtime: arithmetic wraps.\<close>

type_synonym size_t = "64 word"

text \<open>
  A \<^verbatim>\<open>double\<close> is its 64 bits (IEEE 754 binary64). The channel never computes
  with a payload, it only copies it, and the literal \<^verbatim>\<open>0.0\<close> is the pattern of
  64 zero bits.
\<close>

type_synonym double = "64 word"

text \<open>
  \<^verbatim>\<open>buffer\<close> is a pointer: \<open>None\<close> is \<^verbatim>\<open>NULL\<close>, \<open>Some xs\<close> a block
  of \<open>length xs\<close> slots. A slot that was never written is \<open>None\<close>
  (\<^verbatim>\<open>malloc\<close> does not initialise). \<^verbatim>\<open>closed\<close> only ever holds
  \<^verbatim>\<open>CHANNEL_OPEN\<close> (0) or \<^verbatim>\<open>CHANNEL_CLOSED\<close> (1) and is only tested for
  truth. The mutex and the condition variables are in the scheduler below.
\<close>

record channel =
  buffer :: "double option list option"
  read_idx :: size_t
  write_idx :: size_t
  count :: size_t
  capacity :: size_t
  closed :: bool

text \<open>What C leaves undefined is a fault of the model.\<close>

datatype fault = NullDeref | OutOfBounds | UninitRead

text \<open>
  \<^verbatim>\<open>(double*)malloc(nbytes)\<close>: the environment decides whether it succeeds
  (\<open>ok\<close>); a block of \<open>nbytes\<close> bytes has room for \<open>nbytes div 8\<close> doubles.
\<close>

definition malloc_doubles :: "bool \<Rightarrow> size_t \<Rightarrow> double option list option" where
  "malloc_doubles ok nbytes = (if ok then Some (replicate (unat nbytes div 8) None) else None)"

text \<open>\<^verbatim>\<open>ch->buffer[i] = v\<close> and \<^verbatim>\<open>ch->buffer[i]\<close>.\<close>

definition store_slot :: "channel \<Rightarrow> size_t \<Rightarrow> double \<Rightarrow> fault + channel" where
  "store_slot ch i v =
     (case buffer ch of
        None \<Rightarrow> Inl NullDeref
      | Some xs \<Rightarrow>
          if unat i < length xs then Inr (ch\<lparr>buffer := Some (xs[unat i := Some v])\<rparr>)
          else Inl OutOfBounds)"

definition load_slot :: "channel \<Rightarrow> size_t \<Rightarrow> fault + double" where
  "load_slot ch i =
     (case buffer ch of
        None \<Rightarrow> Inl NullDeref
      | Some xs \<Rightarrow>
          if unat i < length xs
          then (case xs ! unat i of None \<Rightarrow> Inl UninitRead | Some v \<Rightarrow> Inr v)
          else Inl OutOfBounds)"

subsection \<open>\<^verbatim>\<open>channel_create\<close> (lines 31-47)\<close>

text \<open>
  The environment of one call: whether each \<^verbatim>\<open>malloc\<close> succeeds, and what the
  three initialisers return. The code calls the initialisers as statements, so their
  results are not read.
\<close>

record create_env =
  malloc_channel_ok :: bool
  malloc_ring_ok :: bool
  mutex_init_rc :: int
  cond_send_init_rc :: int
  cond_recv_init_rc :: int

definition channel_create :: "size_t \<Rightarrow> create_env \<Rightarrow> channel option" where
  "channel_create cap env =
     (if \<not> malloc_channel_ok env then None
      else Some \<lparr>buffer = (if cap > 0 then malloc_doubles (malloc_ring_ok env) (cap * 8) else None),
                 read_idx = 0, write_idx = 0, count = 0, capacity = cap, closed = False\<rparr>)"

text \<open>The environment in which nothing fails.\<close>

definition all_ok :: create_env where
  "all_ok = \<lparr>malloc_channel_ok = True, malloc_ring_ok = True, mutex_init_rc = 0,
              cond_send_init_rc = 0, cond_recv_init_rc = 0\<rparr>"

subsection \<open>\<^verbatim>\<open>channel_send\<close> (lines 51-115)\<close>

text \<open>
  A section of send ends by returning (0, or -1 for a closed channel) or by parking
  in one of the three waits on \<^verbatim>\<open>cond_send\<close>: line 66 (\<open>WaitSpace\<close>, the
  ring is full), line 88 (\<open>WaitSlot\<close>, the hand-off slot is taken) and line 109
  (\<open>WaitTaken\<close>, until the receiver has consumed).
\<close>

datatype send_wait = WaitSpace | WaitSlot | WaitTaken

datatype send_step = SendReturn int | SendPark send_wait

text \<open>Lines 75-77.\<close>

definition enqueue :: "channel \<Rightarrow> double \<Rightarrow> fault + channel" where
  "enqueue ch v =
     (case store_slot ch (write_idx ch) v of
        Inl f \<Rightarrow> Inl f
      | Inr ch' \<Rightarrow>
          Inr (ch'\<lparr>write_idx := (write_idx ch' + 1) mod capacity ch', count := count ch' + 1\<rparr>))"

text \<open>Lines 65-80 and 113-114: the test of the loop, then the rest of the buffered path.\<close>

definition send_buffered :: "channel \<Rightarrow> double \<Rightarrow> fault + channel \<times> send_step" where
  "send_buffered ch v =
     (if count ch \<ge> capacity ch \<and> \<not> closed ch then Inr (ch, SendPark WaitSpace)
      else if closed ch then Inr (ch, SendReturn (- 1))
      else (case enqueue ch v of
              Inl f \<Rightarrow> Inl f
            | Inr ch' \<Rightarrow> Inr (ch', SendReturn 0)))"

text \<open>Lines 108-114: the test of the last loop, then the return.\<close>

definition send_wait_taken :: "channel \<Rightarrow> fault + channel \<times> send_step" where
  "send_wait_taken ch =
     (if count ch > 0 \<and> \<not> closed ch then Inr (ch, SendPark WaitTaken)
      else Inr (ch, SendReturn 0))"

text \<open>Lines 92-110: \<open>malloc_ok\<close> is the result of the \<^verbatim>\<open>malloc\<close> of line 99.\<close>

definition send_handoff :: "channel \<Rightarrow> double \<Rightarrow> bool \<Rightarrow> fault + channel \<times> send_step" where
  "send_handoff ch v malloc_ok =
     (if closed ch then Inr (ch, SendReturn (- 1))
      else let ch1 = (if buffer ch = None then ch\<lparr>buffer := malloc_doubles malloc_ok 8\<rparr> else ch)
           in (case store_slot ch1 0 v of
                 Inl f \<Rightarrow> Inl f
               | Inr ch2 \<Rightarrow> send_wait_taken (ch2\<lparr>count := 1\<rparr>)))"

text \<open>Lines 87-89: the test of the loop, then line 92 on.\<close>

definition send_wait_slot :: "channel \<Rightarrow> double \<Rightarrow> bool \<Rightarrow> fault + channel \<times> send_step" where
  "send_wait_slot ch v malloc_ok =
     (if count ch > 0 \<and> \<not> closed ch then Inr (ch, SendPark WaitSlot)
      else send_handoff ch v malloc_ok)"

text \<open>Line 85.\<close>

definition send_unbuffered :: "channel \<Rightarrow> double \<Rightarrow> bool \<Rightarrow> fault + channel \<times> send_step" where
  "send_unbuffered ch v malloc_ok =
     (if count ch > 0 then send_wait_slot ch v malloc_ok else send_handoff ch v malloc_ok)"

text \<open>Lines 55-64: the first section, from \<^verbatim>\<open>pthread_mutex_lock\<close>.\<close>

definition send_locked :: "channel \<Rightarrow> double \<Rightarrow> bool \<Rightarrow> fault + channel \<times> send_step" where
  "send_locked ch v malloc_ok =
     (if closed ch then Inr (ch, SendReturn (- 1))
      else if capacity ch > 0 then send_buffered ch v
      else send_unbuffered ch v malloc_ok)"

text \<open>A later section: the wait returns with the mutex held and the loop tests again.\<close>

fun send_resume :: "send_wait \<Rightarrow> channel \<Rightarrow> double \<Rightarrow> bool \<Rightarrow> fault + channel \<times> send_step" where
  "send_resume WaitSpace ch v malloc_ok = send_buffered ch v"
| "send_resume WaitSlot ch v malloc_ok = send_wait_slot ch v malloc_ok"
| "send_resume WaitTaken ch v malloc_ok = send_wait_taken ch"

text \<open>The call, up to the end of its first section. Line 52 is the test for a null handle.\<close>

definition channel_send ::
  "channel option \<Rightarrow> double \<Rightarrow> bool \<Rightarrow> fault + channel option \<times> send_step" where
  "channel_send h v malloc_ok =
     (case h of
        None \<Rightarrow> Inr (None, SendReturn (- 1))
      | Some ch \<Rightarrow>
          (case send_locked ch v malloc_ok of
             Inl f \<Rightarrow> Inl f
           | Inr (ch', r) \<Rightarrow> Inr (Some ch', r)))"

subsection \<open>\<^verbatim>\<open>channel_recv\<close> (lines 119-156)\<close>

text \<open>
  The C function returns a \<^verbatim>\<open>double\<close> from two places: \<^verbatim>\<open>0.0\<close> at lines 120
  and 133 (\<open>Absent\<close>: null handle, or closed and empty), and the value taken
  from the buffer at line 155 (\<open>Present\<close>). \<open>recv_value\<close> is the number the caller
  gets.
\<close>

datatype recv_result = Absent | Present double

fun recv_value :: "recv_result \<Rightarrow> double" where
  "recv_value Absent = 0"
| "recv_value (Present v) = v"

datatype recv_step = RecvReturn recv_result | RecvPark

text \<open>Lines 137-152.\<close>

definition dequeue :: "channel \<Rightarrow> fault + channel \<times> double" where
  "dequeue ch =
     (if capacity ch > 0
      then (case load_slot ch (read_idx ch) of
              Inl f \<Rightarrow> Inl f
            | Inr v \<Rightarrow>
                Inr (ch\<lparr>read_idx := (read_idx ch + 1) mod capacity ch, count := count ch - 1\<rparr>, v))
      else (case load_slot ch 0 of
              Inl f \<Rightarrow> Inl f
            | Inr v \<Rightarrow> Inr (ch\<lparr>count := 0\<rparr>, v)))"

text \<open>
  Lines 126-155: the test of the loop, then the rest. It is the first section of a call
  and every later one (the wait of line 127 returns to the test of line 126).
\<close>

definition recv_locked :: "channel \<Rightarrow> fault + channel \<times> recv_step" where
  "recv_locked ch =
     (if count ch = 0 \<and> \<not> closed ch then Inr (ch, RecvPark)
      else if count ch = 0 \<and> closed ch then Inr (ch, RecvReturn Absent)
      else (case dequeue ch of
              Inl f \<Rightarrow> Inl f
            | Inr (ch', v) \<Rightarrow> Inr (ch', RecvReturn (Present v))))"

definition channel_recv :: "channel option \<Rightarrow> fault + channel option \<times> recv_step" where
  "channel_recv h =
     (case h of
        None \<Rightarrow> Inr (None, RecvReturn Absent)
      | Some ch \<Rightarrow>
          (case recv_locked ch of
             Inl f \<Rightarrow> Inl f
           | Inr (ch', r) \<Rightarrow> Inr (Some ch', r)))"

subsection \<open>\<^verbatim>\<open>channel_close\<close> (lines 160-173)\<close>

definition close_locked :: "channel \<Rightarrow> channel" where
  "close_locked ch = ch\<lparr>closed := True\<rparr>"

definition channel_close :: "channel option \<Rightarrow> channel option" where
  "channel_close h = (case h of None \<Rightarrow> None | Some ch \<Rightarrow> Some (close_locked ch))"

subsection \<open>Threads\<close>

text \<open>
  Any number of threads share one handle. A thread is outside a call (\<open>Idle\<close>, or
  \<open>Returned\<close> with the result of its last call) or parked in a wait. A schedule names,
  step by step, the thread that takes the mutex next: to start a call, or to come back
  from its wait. POSIX lets \<^verbatim>\<open>pthread_cond_wait\<close> return at any time (a spurious
  wakeup), so a parked thread may be resumed at every step; the signals and broadcasts
  of the code only make some of these resumptions certain, and have no other effect on
  the channel. Each entry also carries the answer of \<^verbatim>\<open>malloc\<close>, should the
  section call it (line 99).
\<close>

type_synonym tid = nat

datatype ret = SendRet int | RecvRet recv_result | CloseRet

datatype pc = Idle | Returned ret | SendParked send_wait double | RecvParked

datatype call = CallSend double | CallRecv | CallClose

datatype action = Call call | Resume

record config =
  chan :: "channel option"
  threads :: "tid \<Rightarrow> pc"

definition init :: "channel option \<Rightarrow> config" where
  "init h = \<lparr>chan = h, threads = (\<lambda>t. Idle)\<rparr>"

fun parked :: "pc \<Rightarrow> bool" where
  "parked (SendParked w v) = True"
| "parked RecvParked = True"
| "parked p = False"

fun after_send :: "double \<Rightarrow> send_step \<Rightarrow> pc" where
  "after_send v (SendReturn n) = Returned (SendRet n)"
| "after_send v (SendPark w) = SendParked w v"

fun after_recv :: "recv_step \<Rightarrow> pc" where
  "after_recv (RecvReturn r) = Returned (RecvRet r)"
| "after_recv RecvPark = RecvParked"

text \<open>
  The trace of a run, for the statements about order: \<open>Enq v\<close> when a section of
  \<^verbatim>\<open>send(v)\<close> has changed \<^verbatim>\<open>count\<close> (lines 77 and 102 are the only places
  where send writes it), \<open>Deq v\<close> when a receive returns \<open>v\<close> from the buffer.
\<close>

datatype event = Enq double | Deq double

definition send_events :: "channel option \<Rightarrow> channel option \<Rightarrow> double \<Rightarrow> event list" where
  "send_events h h' v =
     (case (h, h') of
        (Some ch, Some ch') \<Rightarrow> if count ch' \<noteq> count ch then [Enq v] else []
      | _ \<Rightarrow> [])"

fun recv_events :: "recv_step \<Rightarrow> event list" where
  "recv_events (RecvReturn (Present v)) = [Deq v]"
| "recv_events r = []"

fun enqueued :: "event list \<Rightarrow> double list" where
  "enqueued [] = []"
| "enqueued (Enq v # es) = v # enqueued es"
| "enqueued (Deq v # es) = enqueued es"

fun received :: "event list \<Rightarrow> double list" where
  "received [] = []"
| "received (Enq v # es) = received es"
| "received (Deq v # es) = v # received es"

text \<open>
  One atomic section. An entry that does not apply (a parked thread cannot start a
  call, a thread that is not parked cannot resume) is skipped.
\<close>

fun step :: "config \<Rightarrow> tid \<times> action \<times> bool \<Rightarrow> fault + config \<times> event list" where
  "step c (t, Call (CallSend v), m) =
     (if parked (threads c t) then Inr (c, [])
      else (case channel_send (chan c) v m of
              Inl f \<Rightarrow> Inl f
            | Inr (h', r) \<Rightarrow>
                Inr (c\<lparr>chan := h', threads := (threads c)(t := after_send v r)\<rparr>,
                     send_events (chan c) h' v)))"
| "step c (t, Call CallRecv, m) =
     (if parked (threads c t) then Inr (c, [])
      else (case channel_recv (chan c) of
              Inl f \<Rightarrow> Inl f
            | Inr (h', r) \<Rightarrow>
                Inr (c\<lparr>chan := h', threads := (threads c)(t := after_recv r)\<rparr>, recv_events r)))"
| "step c (t, Call CallClose, m) =
     (if parked (threads c t) then Inr (c, [])
      else Inr (c\<lparr>chan := channel_close (chan c), threads := (threads c)(t := Returned CloseRet)\<rparr>, []))"
| "step c (t, Resume, m) =
     (case (threads c t, chan c) of
        (SendParked w v, Some ch) \<Rightarrow>
          (case send_resume w ch v m of
             Inl f \<Rightarrow> Inl f
           | Inr (ch', r) \<Rightarrow>
               Inr (c\<lparr>chan := Some ch', threads := (threads c)(t := after_send v r)\<rparr>,
                    send_events (Some ch) (Some ch') v))
      | (RecvParked, Some ch) \<Rightarrow>
          (case recv_locked ch of
             Inl f \<Rightarrow> Inl f
           | Inr (ch', r) \<Rightarrow>
               Inr (c\<lparr>chan := Some ch', threads := (threads c)(t := after_recv r)\<rparr>, recv_events r))
      | _ \<Rightarrow> Inr (c, []))"

fun run :: "config \<Rightarrow> (tid \<times> action \<times> bool) list \<Rightarrow> fault + config \<times> event list" where
  "run c [] = Inr (c, [])"
| "run c (a # as) =
     (case step c a of
        Inl f \<Rightarrow> Inl f
      | Inr (c', es) \<Rightarrow>
          (case run c' as of
             Inl f \<Rightarrow> Inl f
           | Inr (c'', es') \<Rightarrow> Inr (c'', es @ es')))"

subsection \<open>The queue a channel holds\<close>

text \<open>
  The values waiting in the channel, oldest first: the \<^verbatim>\<open>count\<close> slots from
  \<^verbatim>\<open>read_idx\<close> on, around the ring; for an unbuffered channel, slot 0.
\<close>

definition slot :: "channel \<Rightarrow> nat \<Rightarrow> double option" where
  "slot ch i =
     (case buffer ch of
        None \<Rightarrow> None
      | Some xs \<Rightarrow> if i < length xs then xs ! i else None)"

definition ring_pos :: "channel \<Rightarrow> nat \<Rightarrow> nat" where
  "ring_pos ch i =
     (if capacity ch = 0 then 0 else (unat (read_idx ch) + i) mod unat (capacity ch))"

definition pending :: "channel \<Rightarrow> double list" where
  "pending ch = List.map_filter (\<lambda>i. slot ch (ring_pos ch i)) [0..<unat (count ch)]"

text \<open>
  The invariant of the channel: the bounds on the indices and on \<^verbatim>\<open>count\<close>, the
  position of \<^verbatim>\<open>write_idx\<close>, and every waiting slot allocated and written. The
  hand-off slot of an unbuffered channel is not allocated yet or has room for a value.
\<close>

definition all_written :: "channel \<Rightarrow> bool" where
  "all_written ch = list_all (\<lambda>i. slot ch (ring_pos ch i) \<noteq> None) [0..<unat (count ch)]"

definition chan_inv :: "channel \<Rightarrow> bool" where
  "chan_inv ch =
     ((if capacity ch = 0 then count ch \<le> 1 \<and> buffer ch \<noteq> Some []
       else read_idx ch < capacity ch \<and> write_idx ch < capacity ch \<and> count ch \<le> capacity ch \<and>
            unat (write_idx ch) = (unat (read_idx ch) + unat (count ch)) mod unat (capacity ch))
      \<and> all_written ch)"

text \<open>The ring has the room \<^verbatim>\<open>capacity\<close> promises.\<close>

definition ring_allocated :: "channel \<Rightarrow> bool" where
  "ring_allocated ch = (map_option length (buffer ch) = Some (unat (capacity ch)))"

text \<open>The test for a full ring, as line 65 makes it.\<close>

definition ring_full :: "channel \<Rightarrow> bool" where
  "ring_full ch = (count ch \<ge> capacity ch)"

fun handle_inv :: "channel option \<Rightarrow> bool" where
  "handle_inv None = True"
| "handle_inv (Some ch) = chan_inv ch"

text \<open>
  The invariant of a configuration: the channel's, and a thread parked at line 88 is
  in the unbuffered path.
\<close>

definition config_inv :: "config \<Rightarrow> bool" where
  "config_inv c =
     (handle_inv (chan c) \<and>
      (\<forall>t v. threads c t = SendParked WaitSlot v \<longrightarrow>
         (case chan c of None \<Rightarrow> False | Some ch \<Rightarrow> capacity ch = 0)))"

text \<open>
  What a section of \<^verbatim>\<open>send(v)\<close> may do to the channel: nothing, or, on an open
  channel, put \<open>v\<close> at the back of the queue.
\<close>

definition send_effect :: "channel \<Rightarrow> double \<Rightarrow> channel \<Rightarrow> bool" where
  "send_effect ch v ch' =
     (chan_inv ch' \<and> closed ch' = closed ch \<and> capacity ch' = capacity ch \<and>
      (ch' = ch \<or> (\<not> closed ch \<and> count ch' \<noteq> count ch \<and> pending ch' = pending ch @ [v])))"

fun queue_of :: "channel option \<Rightarrow> double list" where
  "queue_of None = []"
| "queue_of (Some ch) = pending ch"

fun handle_closed :: "channel option \<Rightarrow> bool" where
  "handle_closed None = False"
| "handle_closed (Some ch) = closed ch"

fun handle_capacity :: "channel option \<Rightarrow> size_t option" where
  "handle_capacity None = None"
| "handle_capacity (Some ch) = Some (capacity ch)"

text \<open>
  What one step does, seen from the queue: the values it enqueues go to the back, the
  values it delivers come from the front.
\<close>

definition queue_step :: "config \<Rightarrow> config \<Rightarrow> event list \<Rightarrow> bool" where
  "queue_step c c' es =
     (config_inv c' \<and> handle_capacity (chan c') = handle_capacity (chan c) \<and>
      queue_of (chan c) @ enqueued es = received es @ queue_of (chan c'))"

section \<open>Properties\<close>

subsection \<open>Indices and queues\<close>

lemma unat_succ:
  fixes x y :: size_t
  assumes "x < y" shows "unat (x + 1) = Suc (unat x)"
proof -
  have "unat x < unat y" using assms by (simp add: word_less_nat_alt)
  moreover have "unat y < 2 ^ 64" using unsigned_less [of y] by simp
  ultimately have "unat x + 1 < 2 ^ 64" by simp
  then show ?thesis by (simp add: unat_word_ariths)
qed

lemma unat_pred: "(x::size_t) \<noteq> 0 \<Longrightarrow> unat (x - 1) = unat x - 1"
  by (rule unat_minus_one)

lemma le_one_cases:
  fixes x :: size_t
  assumes "x \<le> 1" shows "x = 0 \<or> x = 1"
proof -
  have "unat x \<le> 1" using assms by (simp add: word_le_nat_alt)
  then have "unat x = unat (0::size_t) \<or> unat x = unat (1::size_t)" by auto
  then show ?thesis by (simp only: word_unat_eq_iff)
qed

lemma ring_distinct:
  fixes R C i n :: nat
  assumes "i < n" "n < C"
  shows "(R + i) mod C \<noteq> (R + n) mod C"
proof
  assume "(R + i) mod C = (R + n) mod C"
  then have "(R + n) mod C = (R + i) mod C" by simp
  then have "C dvd (R + n) - (R + i)"
    using assms by (simp add: mod_eq_dvd_iff_nat)
  then have "C dvd n - i" by simp
  moreover have "0 < n - i" "n - i < C" using assms by simp_all
  ultimately show False by (auto dest: dvd_imp_le)
qed

lemma map_filter_all_some:
  "(\<And>x. x \<in> set xs \<Longrightarrow> f x = Some (g x)) \<Longrightarrow> List.map_filter f xs = map g xs"
  by (induction xs) simp_all

lemma pending_written:
  assumes "all_written ch"
  shows "pending ch = map (\<lambda>i. the (slot ch (ring_pos ch i))) [0..<unat (count ch)]"
  unfolding pending_def
  by (rule map_filter_all_some) (use assms in \<open>auto simp: all_written_def list_all_iff\<close>)

lemma length_pending: "all_written ch \<Longrightarrow> length (pending ch) = unat (count ch)"
  by (simp add: pending_written)

lemma pendingI:
  assumes "length q = unat (count ch)"
    and "\<And>i. i < unat (count ch) \<Longrightarrow> slot ch (ring_pos ch i) = Some (q ! i)"
  shows "all_written ch \<and> pending ch = q"
proof -
  have w: "all_written ch"
    using assms(2) by (auto simp: all_written_def list_all_iff)
  have "pending ch = map (\<lambda>i. q ! i) [0..<unat (count ch)]"
    unfolding pending_written [OF w] using assms(2) by simp
  also have "\<dots> = q" unfolding assms(1) [symmetric] by (rule map_nth)
  finally show ?thesis using w by simp
qed

lemma pendingD:
  assumes "all_written ch" "i < unat (count ch)"
  shows "slot ch (ring_pos ch i) = Some (pending ch ! i)"
  using assms by (auto simp: pending_written all_written_def list_all_iff)

lemma slot_store:
  assumes "store_slot ch i v = Inr ch'"
  shows "slot ch' j = (if j = unat i then Some v else slot ch j)"
    and "read_idx ch' = read_idx ch" and "write_idx ch' = write_idx ch"
    and "count ch' = count ch" and "capacity ch' = capacity ch" and "closed ch' = closed ch"
    and "buffer ch' \<noteq> None"
  using assms by (auto simp: store_slot_def slot_def split: option.splits if_splits)

lemma load_slot_written:
  "slot ch (unat i) = Some v \<Longrightarrow> load_slot ch i = Inr v"
  by (auto simp: slot_def load_slot_def split: option.splits if_splits)

lemma ring_pos_0: "capacity ch \<noteq> 0 \<Longrightarrow> read_idx ch < capacity ch \<Longrightarrow> ring_pos ch 0 = unat (read_idx ch)"
  by (simp add: ring_pos_def word_less_nat_alt)

lemma slot_update_indices [simp]:
  "slot (ch\<lparr>write_idx := w\<rparr>) = slot ch"
  "slot (ch\<lparr>read_idx := r\<rparr>) = slot ch"
  "slot (ch\<lparr>count := n\<rparr>) = slot ch"
  "slot (ch\<lparr>closed := b\<rparr>) = slot ch"
  by (simp_all add: slot_def fun_eq_iff)

lemma ring_pos_update [simp]:
  "ring_pos (ch\<lparr>write_idx := w\<rparr>) = ring_pos ch"
  "ring_pos (ch\<lparr>count := n\<rparr>) = ring_pos ch"
  "ring_pos (ch\<lparr>closed := b\<rparr>) = ring_pos ch"
  "ring_pos (ch\<lparr>buffer := xs\<rparr>) = ring_pos ch"
  by (simp_all add: ring_pos_def fun_eq_iff)

lemma enqueue_inv:
  assumes inv: "chan_inv ch" and cap: "capacity ch \<noteq> 0" and room: "count ch < capacity ch"
    and e: "enqueue ch v = Inr ch'"
  shows "chan_inv ch' \<and> pending ch' = pending ch @ [v] \<and> closed ch' = closed ch \<and>
         capacity ch' = capacity ch \<and> count ch' = count ch + 1 \<and> count ch' \<noteq> count ch"
proof -
  from e obtain ch1 where s: "store_slot ch (write_idx ch) v = Inr ch1"
    and ch': "ch' = ch1\<lparr>write_idx := (write_idx ch1 + 1) mod capacity ch1, count := count ch1 + 1\<rparr>"
    by (auto simp: enqueue_def split: sum.splits)
  note st = slot_store [OF s]
  let ?R = "unat (read_idx ch)" and ?W = "unat (write_idx ch)"
  let ?N = "unat (count ch)" and ?C = "unat (capacity ch)"
  from inv cap have r: "read_idx ch < capacity ch" and w: "write_idx ch < capacity ch"
    and weq: "?W = (?R + ?N) mod ?C" and aw: "all_written ch"
    by (simp_all add: chan_inv_def)
  have C0: "0 < ?C" using cap by (simp add: unat_gt_0)
  have NC: "?N < ?C" using room by (simp add: word_less_nat_alt)
  have n': "unat (count ch') = Suc ?N"
    using unat_succ [OF room] by (simp add: ch' st)
  have w': "unat (write_idx ch') = (?W + 1) mod ?C"
    using unat_succ [OF w] by (simp add: ch' st unat_mod)
  have pos: "ring_pos ch' = ring_pos ch"
    by (simp add: ch' ring_pos_def st fun_eq_iff)
  have sl: "slot ch' j = (if j = ?W then Some v else slot ch j)" for j
    by (simp add: ch' st)
  have posN: "ring_pos ch ?N = ?W" using cap weq by (simp add: ring_pos_def)
  have posi: "ring_pos ch i \<noteq> ?W" if "i < ?N" for i
    using ring_distinct [OF that NC, of ?R] cap weq by (simp add: ring_pos_def)
  have q: "all_written ch' \<and> pending ch' = pending ch @ [v]"
  proof (rule pendingI)
    show "length (pending ch @ [v]) = unat (count ch')"
      by (simp add: n' length_pending [OF aw])
  next
    fix i assume "i < unat (count ch')"
    then have "i < ?N \<or> i = ?N" using n' by auto
    then show "slot ch' (ring_pos ch' i) = Some ((pending ch @ [v]) ! i)"
    proof
      assume i: "i < ?N"
      then show ?thesis
        using posi [OF i] pendingD [OF aw i]
        by (simp add: pos sl nth_append length_pending [OF aw])
    next
      assume "i = ?N"
      then show ?thesis
        by (simp add: pos sl posN nth_append length_pending [OF aw])
    qed
  qed
  have same: "capacity ch' = capacity ch" "read_idx ch' = read_idx ch" "closed ch' = closed ch"
    "count ch' = count ch + 1"
    by (simp_all add: ch' st)
  have le: "count ch' \<le> capacity ch'"
    unfolding word_le_nat_alt same(1) using NC n' by simp
  have w'lt: "write_idx ch' < capacity ch'"
    unfolding word_less_nat_alt same(1) using C0 w' by simp
  have "unat (write_idx ch') = (unat (read_idx ch') + unat (count ch')) mod unat (capacity ch')"
    unfolding same(1,2) n' w' weq by (simp add: mod_Suc_eq)
  then have "chan_inv ch'"
    using q le w'lt r cap by (simp add: chan_inv_def same(1,2))
  moreover have "count ch' \<noteq> count ch"
    using n' by (auto simp: word_unat_eq_iff)
  ultimately show ?thesis using q same by simp
qed

subsection \<open>Sections of receive and send keep the invariant\<close>

lemma upt_shift: "0 < n \<Longrightarrow> map f [0..<n] = f 0 # map (\<lambda>i. f (Suc i)) [0..<n - 1]"
  by (cases n) (simp_all add: upt_conv_Cons map_Suc_upt [symmetric] del: upt_Suc)

lemma dequeue_inv:
  assumes inv: "chan_inv ch" and ne: "count ch \<noteq> 0"
  shows "\<exists>ch' v. dequeue ch = Inr (ch', v) \<and> chan_inv ch' \<and> pending ch = v # pending ch' \<and>
           closed ch' = closed ch \<and> capacity ch' = capacity ch \<and> buffer ch' = buffer ch"
proof (cases "capacity ch = 0")
  case True
  from inv True have aw: "all_written ch" and "count ch \<le> 1"
    by (simp_all add: chan_inv_def)
  with ne have c1: "count ch = 1" using le_one_cases by blast
  then have n: "unat (count ch) = 1" by simp
  from pendingD [OF aw, of 0] n True have s0: "slot ch 0 = Some (pending ch ! 0)"
    by (simp add: ring_pos_def)
  then have l: "load_slot ch 0 = Inr (pending ch ! 0)"
    using load_slot_written [of ch 0] by simp
  let ?ch' = "ch\<lparr>count := 0\<rparr>"
  have d: "dequeue ch = Inr (?ch', pending ch ! 0)"
    using True l by (simp add: dequeue_def)
  have p': "pending ?ch' = []" by (simp add: pending_def)
  have "length (pending ch) = 1" using length_pending [OF aw] n by simp
  then have "pending ch = [pending ch ! 0]"
    by (cases "pending ch") simp_all
  then have "pending ch = pending ch ! 0 # pending ?ch'" using p' by simp
  moreover have "chan_inv ?ch'"
    using True inv by (simp add: chan_inv_def all_written_def)
  ultimately show ?thesis using d by simp
next
  case False
  let ?R = "unat (read_idx ch)" and ?W = "unat (write_idx ch)"
  let ?N = "unat (count ch)" and ?C = "unat (capacity ch)"
  from inv False have r: "read_idx ch < capacity ch" and w: "write_idx ch < capacity ch"
    and le: "count ch \<le> capacity ch"
    and weq: "?W = (?R + ?N) mod ?C" and aw: "all_written ch"
    by (simp_all add: chan_inv_def)
  have N0: "0 < ?N" using ne by (simp add: unat_gt_0)
  have RC: "?R < ?C" using r by (simp add: word_less_nat_alt)
  let ?v = "pending ch ! 0"
  let ?ch' = "ch\<lparr>read_idx := (read_idx ch + 1) mod capacity ch, count := count ch - 1\<rparr>"
  have "slot ch ?R = Some ?v"
    using pendingD [OF aw N0] RC False by (simp add: ring_pos_def)
  then have l: "load_slot ch (read_idx ch) = Inr ?v" by (rule load_slot_written)
  have d: "dequeue ch = Inr (?ch', ?v)"
    using False l by (simp add: dequeue_def word_neq_0_conv)
  have n': "unat (count ?ch') = ?N - 1" using unat_minus_one [OF ne] by simp
  have r': "unat (read_idx ?ch') = Suc ?R mod ?C"
    using unat_succ [OF r] by (simp add: unat_mod)
  have pos0: "ring_pos (ch\<lparr>read_idx := (read_idx ch + 1) mod capacity ch\<rparr>) i = ring_pos ch (Suc i)" for i
    using False r' by (simp add: ring_pos_def mod_add_left_eq)
  have pos: "ring_pos ?ch' i = ring_pos ch (Suc i)" for i
    using pos0 by simp
  have aw': "all_written ?ch'"
    unfolding all_written_def list_all_iff n'
  proof
    fix i assume "i \<in> set [0..<?N - 1]"
    then have "Suc i < ?N" by simp
    from pendingD [OF aw this] show "slot ?ch' (ring_pos ?ch' i) \<noteq> None"
      unfolding pos by simp
  qed
  have "pending ch = map (\<lambda>i. the (slot ch (ring_pos ch i))) [0..<?N]"
    by (rule pending_written [OF aw])
  also have "\<dots> = the (slot ch (ring_pos ch 0)) # map (\<lambda>i. the (slot ch (ring_pos ch (Suc i)))) [0..<?N - 1]"
    by (rule upt_shift [OF N0])
  also have "the (slot ch (ring_pos ch 0)) = ?v"
    using pendingD [OF aw N0] by simp
  also have "map (\<lambda>i. the (slot ch (ring_pos ch (Suc i)))) [0..<?N - 1] = pending ?ch'"
    unfolding pending_written [OF aw'] n' by (simp add: pos0)
  finally have p: "pending ch = ?v # pending ?ch'" .
  have "(Suc ?R mod ?C + (?N - 1)) mod ?C = (Suc ?R + (?N - 1)) mod ?C"
    by (rule mod_add_left_eq)
  also have "Suc ?R + (?N - 1) = ?R + ?N" using N0 by simp
  finally have "(Suc ?R mod ?C + (?N - 1)) mod ?C = (?R + ?N) mod ?C" .
  then have weq': "unat (write_idx ?ch') = (unat (read_idx ?ch') + unat (count ?ch')) mod unat (capacity ?ch')"
    unfolding r' n' using weq by simp
  have "unat (read_idx ?ch') < ?C" unfolding r' using RC by simp
  then have rlt: "read_idx ?ch' < capacity ?ch'" by (simp add: word_less_nat_alt)
  have "unat (count ?ch') \<le> ?C" unfolding n' using le by (simp add: word_le_nat_alt)
  then have nle: "count ?ch' \<le> capacity ?ch'" by (simp add: word_le_nat_alt)
  have "chan_inv ?ch'"
    unfolding chan_inv_def using False rlt nle weq' aw' w by simp
  then show ?thesis using d p by simp
qed

lemma send_buffered_effect:
  assumes inv: "chan_inv ch" and s: "send_buffered ch v = Inr (ch', r)"
  shows "send_effect ch v ch'"
proof (cases "count ch \<ge> capacity ch \<or> closed ch")
  case True
  then have "ch' = ch" using s by (auto simp: send_buffered_def split: if_splits)
  then show ?thesis using inv by (simp add: send_effect_def)
next
  case False
  then have room: "count ch < capacity ch" and op: "\<not> closed ch" by auto
  then have cap: "capacity ch \<noteq> 0" by auto
  from s False have "enqueue ch v = Inr ch'"
    by (auto simp: send_buffered_def split: if_splits sum.splits)
  from enqueue_inv [OF inv cap room this] op show ?thesis
    by (simp add: send_effect_def)
qed

lemma send_wait_taken_same: "send_wait_taken ch = Inr (ch', r) \<Longrightarrow> ch' = ch"
  by (auto simp: send_wait_taken_def split: if_splits)

lemma send_handoff_effect:
  assumes inv: "chan_inv ch" and cap: "capacity ch = 0" and free: "count ch = 0 \<or> closed ch"
    and s: "send_handoff ch v m = Inr (ch', r)"
  shows "send_effect ch v ch'"
proof (cases "closed ch")
  case True
  then have "ch' = ch" using s by (simp add: send_handoff_def)
  then show ?thesis using inv by (simp add: send_effect_def)
next
  case False
  with free have n0: "count ch = 0" by simp
  define ch1 where "ch1 = (if buffer ch = None then ch\<lparr>buffer := malloc_doubles m 8\<rparr> else ch)"
  from s False obtain ch2 where st: "store_slot ch1 0 v = Inr ch2"
    and w: "send_wait_taken (ch2\<lparr>count := 1\<rparr>) = Inr (ch', r)"
    by (auto simp: send_handoff_def ch1_def Let_def split: sum.splits)
  have ch': "ch' = ch2\<lparr>count := 1\<rparr>" using send_wait_taken_same [OF w] .
  note f = slot_store [OF st]
  have ch1: "count ch1 = 0" "capacity ch1 = 0" "closed ch1 = closed ch"
    using n0 cap by (simp_all add: ch1_def)
  have s0: "slot ch' 0 = Some v" by (simp add: ch' f)
  have n': "unat (count ch') = 1" by (simp add: ch')
  have cap': "capacity ch' = 0" by (simp add: ch' f ch1)
  have q: "all_written ch' \<and> pending ch' = [v]"
    by (rule pendingI) (use s0 n' cap' in \<open>simp_all add: ring_pos_def\<close>)
  have "pending ch = []" using n0 by (simp add: pending_def)
  moreover have "buffer ch' \<noteq> Some []"
    using s0 by (auto simp: slot_def)
  moreover have "closed ch' = closed ch" by (simp add: ch' f ch1)
  moreover have "count ch' \<noteq> count ch" using n0 by (simp add: ch')
  moreover have "count ch' \<le> 1" by (simp add: ch')
  ultimately show ?thesis
    using q cap cap' False by (simp add: send_effect_def chan_inv_def)
qed

lemma send_wait_slot_effect:
  assumes "chan_inv ch" "capacity ch = 0" "send_wait_slot ch v m = Inr (ch', r)"
  shows "send_effect ch v ch'"
proof (cases "count ch > 0 \<and> \<not> closed ch")
  case True
  then have "ch' = ch" using assms(3) by (simp add: send_wait_slot_def)
  then show ?thesis using assms(1) by (simp add: send_effect_def)
next
  case False
  then have "count ch = 0 \<or> closed ch" by (auto simp: word_neq_0_conv [symmetric])
  moreover have "send_handoff ch v m = Inr (ch', r)"
    using False assms(3) by (auto simp: send_wait_slot_def split: if_splits)
  ultimately show ?thesis using assms(1,2) by (blast intro: send_handoff_effect)
qed

lemma send_unbuffered_effect:
  assumes "chan_inv ch" "capacity ch = 0" "send_unbuffered ch v m = Inr (ch', r)"
  shows "send_effect ch v ch'"
proof (cases "count ch > 0")
  case True
  then show ?thesis using assms by (simp add: send_unbuffered_def send_wait_slot_effect)
next
  case False
  then have "count ch = 0" by (simp add: word_neq_0_conv [symmetric])
  then show ?thesis using assms by (simp add: send_unbuffered_def send_handoff_effect)
qed

lemma send_locked_effect:
  assumes "chan_inv ch" "send_locked ch v m = Inr (ch', r)"
  shows "send_effect ch v ch'"
proof -
  consider "closed ch" | "\<not> closed ch" "capacity ch > 0" | "\<not> closed ch" "capacity ch = 0"
    by (auto simp: word_neq_0_conv [symmetric])
  then show ?thesis
  proof cases
    case 1
    then have "ch' = ch" using assms(2) by (simp add: send_locked_def)
    then show ?thesis using assms(1) by (simp add: send_effect_def)
  next
    case 2
    then show ?thesis using assms by (simp add: send_locked_def send_buffered_effect)
  next
    case 3
    then show ?thesis using assms by (simp add: send_locked_def send_unbuffered_effect)
  qed
qed

lemma send_resume_effect:
  assumes "chan_inv ch" "w = WaitSlot \<longrightarrow> capacity ch = 0" "send_resume w ch v m = Inr (ch', r)"
  shows "send_effect ch v ch'"
proof (cases w)
  case WaitSpace
  then show ?thesis using assms by (simp add: send_buffered_effect)
next
  case WaitSlot
  then show ?thesis using assms by (simp add: send_wait_slot_effect)
next
  case WaitTaken
  then have "ch' = ch" using assms(3) by (simp add: send_wait_taken_same)
  then show ?thesis using assms(1) by (simp add: send_effect_def)
qed

lemma send_locked_wait_slot:
  "send_locked ch v m = Inr (ch', SendPark WaitSlot) \<Longrightarrow> capacity ch = 0"
  by (auto simp: send_locked_def send_buffered_def word_neq_0_conv [symmetric]
      split: if_splits sum.splits)

lemma send_resume_wait_slot:
  "send_resume w ch v m = Inr (ch', SendPark WaitSlot) \<Longrightarrow> w = WaitSlot"
  by (cases w) (auto simp: send_buffered_def send_wait_taken_def split: if_splits sum.splits)

lemma recv_locked_effect:
  assumes inv: "chan_inv ch"
  shows "\<exists>ch' r. recv_locked ch = Inr (ch', r) \<and> chan_inv ch' \<and> closed ch' = closed ch \<and>
           capacity ch' = capacity ch \<and>
           (case r of
              RecvPark \<Rightarrow> ch' = ch \<and> count ch = 0 \<and> \<not> closed ch
            | RecvReturn Absent \<Rightarrow> ch' = ch \<and> count ch = 0 \<and> closed ch
            | RecvReturn (Present v) \<Rightarrow> count ch \<noteq> 0 \<and> pending ch = v # pending ch')"
proof (cases "count ch = 0")
  case True
  then show ?thesis using inv by (simp add: recv_locked_def)
next
  case False
  from dequeue_inv [OF inv False] obtain ch' v where "dequeue ch = Inr (ch', v)"
    "chan_inv ch'" "pending ch = v # pending ch'" "closed ch' = closed ch" "capacity ch' = capacity ch"
    by blast
  then show ?thesis using False by (simp add: recv_locked_def)
qed

subsection \<open>Steps and runs\<close>

lemma pending_closed_update [simp]: "pending (ch\<lparr>closed := b\<rparr>) = pending ch"
  by (simp add: pending_def)

lemma close_locked_inv: "chan_inv ch \<Longrightarrow> chan_inv (close_locked ch)"
  by (simp add: close_locked_def chan_inv_def all_written_def)

lemma config_inv_some:
  assumes "config_inv c" "chan c = Some ch" "chan_inv ch'" "capacity ch' = capacity ch"
    and "\<And>v. p = SendParked WaitSlot v \<Longrightarrow> capacity ch = 0"
  shows "config_inv (c\<lparr>chan := Some ch', threads := (threads c)(t := p)\<rparr>)"
  using assms by (auto simp: config_inv_def)

lemma config_inv_none:
  assumes "config_inv c" "chan c = None" "\<And>v. p \<noteq> SendParked WaitSlot v"
  shows "config_inv (c\<lparr>chan := None, threads := (threads c)(t := p)\<rparr>)"
  using assms by (auto simp: config_inv_def)

lemma after_send_wait_slot: "after_send v r = SendParked WaitSlot v' \<Longrightarrow> r = SendPark WaitSlot"
  by (cases r) auto

lemma after_recv_not_send: "after_recv r \<noteq> SendParked w v"
  by (cases r) auto

lemma queue_step_refl: "config_inv c \<Longrightarrow> queue_step c c []"
  by (simp add: queue_step_def)

lemma queue_step_send:
  assumes inv: "config_inv c" and ch: "chan c = Some ch" and eff: "send_effect ch v ch'"
    and p: "\<And>v'. after_send v r = SendParked WaitSlot v' \<Longrightarrow> capacity ch = 0"
  shows "queue_step c (c\<lparr>chan := Some ch', threads := (threads c)(t := after_send v r)\<rparr>)
           (send_events (Some ch) (Some ch') v)"
proof -
  from eff have i': "chan_inv ch'" and cap: "capacity ch' = capacity ch"
    by (simp_all add: send_effect_def)
  have "config_inv (c\<lparr>chan := Some ch', threads := (threads c)(t := after_send v r)\<rparr>)"
    using inv ch i' cap p by (rule config_inv_some)
  moreover have "pending ch @ enqueued (send_events (Some ch) (Some ch') v)
      = received (send_events (Some ch) (Some ch') v) @ pending ch'"
    using eff by (auto simp: send_effect_def send_events_def)
  ultimately show ?thesis using ch cap by (simp add: queue_step_def)
qed

lemma queue_step_recv:
  assumes inv: "config_inv c" and ch: "chan c = Some ch" and r: "recv_locked ch = Inr (ch', r)"
  shows "queue_step c (c\<lparr>chan := Some ch', threads := (threads c)(t := after_recv r)\<rparr>)
           (recv_events r)"
proof -
  from inv ch have "chan_inv ch" by (simp add: config_inv_def)
  from recv_locked_effect [OF this] r have i': "chan_inv ch'" and cap: "capacity ch' = capacity ch"
    and q: "(case r of
              RecvPark \<Rightarrow> ch' = ch \<and> count ch = 0 \<and> \<not> closed ch
            | RecvReturn Absent \<Rightarrow> ch' = ch \<and> count ch = 0 \<and> closed ch
            | RecvReturn (Present v) \<Rightarrow> count ch \<noteq> 0 \<and> pending ch = v # pending ch')"
    by auto
  have "config_inv (c\<lparr>chan := Some ch', threads := (threads c)(t := after_recv r)\<rparr>)"
    using inv ch i' cap by (rule config_inv_some) (simp add: after_recv_not_send)
  moreover have "pending ch @ enqueued (recv_events r) = received (recv_events r) @ pending ch'"
    using q by (cases r rule: recv_events.cases) simp_all
  ultimately show ?thesis using ch cap by (simp add: queue_step_def)
qed

lemma step_queue:
  assumes inv: "config_inv c" and s: "step c a = Inr (c', es)"
  shows "queue_step c c' es"
proof -
  obtain t act m where a: "a = (t, act, m)" by (cases a)
  show ?thesis
  proof (cases "chan c")
    case None
    have hn: "handle_inv None" by simp
    show ?thesis
    proof (cases act)
      case (Call k)
      show ?thesis
      proof (cases "parked (threads c t)")
        case True
        then have "c' = c \<and> es = []" using s a Call by (cases k) simp_all
        then show ?thesis using inv by (simp add: queue_step_refl)
      next
        case False
        then obtain p where "c' = c\<lparr>chan := None, threads := (threads c)(t := p)\<rparr>"
          "\<And>v. p \<noteq> SendParked WaitSlot v" "es = []"
          using s a Call None
          by (cases k) (auto simp: channel_send_def channel_recv_def channel_close_def send_events_def)
        then show ?thesis
          using config_inv_none [OF inv None, of p t] None by (simp add: queue_step_def)
      qed
    next
      case Resume
      then have "c' = c \<and> es = []" using s a None by (auto split: pc.splits)
      then show ?thesis using inv by (simp add: queue_step_refl)
    qed
  next
    case (Some ch)
    then have ci: "chan_inv ch" using inv by (simp add: config_inv_def)
    show ?thesis
    proof (cases act)
      case (Call k)
      show ?thesis
      proof (cases "parked (threads c t)")
        case True
        then have "c' = c \<and> es = []" using s a Call by (cases k) simp_all
        then show ?thesis using inv by (simp add: queue_step_refl)
      next
        case False
        show ?thesis
        proof (cases k)
          case (CallSend v)
          with s a Call False Some obtain ch' r where l: "send_locked ch v m = Inr (ch', r)"
            and c': "c' = c\<lparr>chan := Some ch', threads := (threads c)(t := after_send v r)\<rparr>"
            and es: "es = send_events (Some ch) (Some ch') v"
            by (auto simp: channel_send_def split: sum.splits)
          have "capacity ch = 0" if "after_send v r = SendParked WaitSlot v'" for v'
            using after_send_wait_slot [OF that] l by (simp add: send_locked_wait_slot)
          with inv Some send_locked_effect [OF ci l] show ?thesis
            unfolding c' es by (rule queue_step_send)
        next
          case CallRecv
          with s a Call False Some obtain ch' r where l: "recv_locked ch = Inr (ch', r)"
            and c': "c' = c\<lparr>chan := Some ch', threads := (threads c)(t := after_recv r)\<rparr>"
            and es: "es = recv_events r"
            by (auto simp: channel_recv_def split: sum.splits)
          from inv Some l show ?thesis unfolding c' es by (rule queue_step_recv)
        next
          case CallClose
          with s a Call False Some
          have c': "c' = c\<lparr>chan := Some (close_locked ch), threads := (threads c)(t := Returned CloseRet)\<rparr>"
            and es: "es = []"
            by (auto simp: channel_close_def)
          have "config_inv c'"
            unfolding c' using inv Some close_locked_inv [OF ci]
            by (rule config_inv_some) (simp_all add: close_locked_def)
          then show ?thesis using Some by (simp add: queue_step_def c' es close_locked_def)
        qed
      qed
    next
      case Resume
      show ?thesis
      proof (cases "threads c t")
        case (SendParked w v)
        with s a Resume Some obtain ch' r where l: "send_resume w ch v m = Inr (ch', r)"
          and c': "c' = c\<lparr>chan := Some ch', threads := (threads c)(t := after_send v r)\<rparr>"
          and es: "es = send_events (Some ch) (Some ch') v"
          by (auto split: sum.splits)
        have wc: "w = WaitSlot \<longrightarrow> capacity ch = 0"
          using inv Some SendParked by (auto simp: config_inv_def)
        have "capacity ch = 0" if "after_send v r = SendParked WaitSlot v'" for v'
          using after_send_wait_slot [OF that] l wc by (auto dest: send_resume_wait_slot)
        with inv Some send_resume_effect [OF ci wc l] show ?thesis
          unfolding c' es by (rule queue_step_send)
      next
        case RecvParked
        with s a Resume Some obtain ch' r where l: "recv_locked ch = Inr (ch', r)"
          and c': "c' = c\<lparr>chan := Some ch', threads := (threads c)(t := after_recv r)\<rparr>"
          and es: "es = recv_events r"
          by (auto split: sum.splits)
        from inv Some l show ?thesis unfolding c' es by (rule queue_step_recv)
      next
        case Idle
        then have "c' = c \<and> es = []" using s a Resume by simp
        then show ?thesis using inv by (simp add: queue_step_refl)
      next
        case (Returned x)
        then have "c' = c \<and> es = []" using s a Resume by simp
        then show ?thesis using inv by (simp add: queue_step_refl)
      qed
    qed
  qed
qed

lemma enqueued_append: "enqueued (es @ es') = enqueued es @ enqueued es'"
  by (induction es rule: enqueued.induct) simp_all

lemma received_append: "received (es @ es') = received es @ received es'"
  by (induction es rule: received.induct) simp_all

lemma queue_step_trans:
  assumes "queue_step c c1 es1" "queue_step c1 c2 es2"
  shows "queue_step c c2 (es1 @ es2)"
proof -
  have "queue_of (chan c) @ enqueued (es1 @ es2) = (queue_of (chan c) @ enqueued es1) @ enqueued es2"
    by (simp add: enqueued_append)
  also have "\<dots> = received es1 @ (queue_of (chan c1) @ enqueued es2)"
    using assms(1) by (simp add: queue_step_def)
  also have "\<dots> = received (es1 @ es2) @ queue_of (chan c2)"
    using assms(2) by (simp add: queue_step_def received_append)
  finally show ?thesis using assms by (simp add: queue_step_def)
qed

lemma run_queue:
  "config_inv c \<Longrightarrow> run c s = Inr (c', es) \<Longrightarrow> queue_step c c' es"
proof (induction s arbitrary: c c' es)
  case Nil
  then show ?case by (simp add: queue_step_refl)
next
  case (Cons a s)
  from Cons.prems(2) obtain c1 es1 es2 where s1: "step c a = Inr (c1, es1)"
    and r: "run c1 s = Inr (c', es2)" and es: "es = es1 @ es2"
    by (auto split: sum.splits)
  have q1: "queue_step c c1 es1" using Cons.prems(1) s1 by (rule step_queue)
  then have "config_inv c1" by (simp add: queue_step_def)
  from Cons.IH [OF this r] q1 show ?case unfolding es by (blast intro: queue_step_trans)
qed

lemma create_inv: "config_inv (init (channel_create cap env))"
proof (cases "channel_create cap env")
  case None
  then show ?thesis by (simp add: config_inv_def init_def)
next
  case (Some ch)
  then have ch: "ch = \<lparr>buffer = (if cap > 0 then malloc_doubles (malloc_ring_ok env) (cap * 8) else None),
                 read_idx = 0, write_idx = 0, count = 0, capacity = cap, closed = False\<rparr>"
    by (auto simp: channel_create_def split: if_splits)
  have "chan_inv ch"
    unfolding ch by (simp add: chan_inv_def all_written_def word_neq_0_conv)
  then show ?thesis using Some by (simp add: config_inv_def init_def)
qed

lemma create_queue: "queue_of (chan (init (channel_create cap env))) = []"
  by (simp add: init_def channel_create_def pending_def)

lemma create_capacity:
  "chan (init (channel_create cap env)) = Some ch \<Longrightarrow> capacity ch = cap"
  by (auto simp: init_def channel_create_def split: if_splits)

subsection \<open>What a section leaves alone\<close>

lemma enqueue_closed: "enqueue ch v = Inr ch' \<Longrightarrow> closed ch' = closed ch"
  by (auto simp: enqueue_def store_slot_def split: sum.splits option.splits if_splits)

lemma send_buffered_frame:
  assumes "send_buffered ch v = Inr (ch', r)"
  shows "closed ch' = closed ch" and "closed ch \<Longrightarrow> ch' = ch \<and> r = SendReturn (- 1)"
    and "r \<noteq> SendReturn 0 \<Longrightarrow> ch' = ch" and "r \<noteq> SendPark WaitSlot" and "r \<noteq> SendPark WaitTaken"
  using assms
  by (auto simp: send_buffered_def enqueue_closed split: if_splits sum.splits)

lemma send_wait_taken_frame:
  assumes "send_wait_taken ch = Inr (ch', r)"
  shows "ch' = ch" and "r = SendReturn 0 \<or> r = SendPark WaitTaken"
    and "closed ch \<Longrightarrow> r = SendReturn 0"
  using assms by (auto simp: send_wait_taken_def split: if_splits)

lemma send_handoff_frame:
  assumes "send_handoff ch v m = Inr (ch', r)"
  shows "closed ch' = closed ch \<and> (closed ch \<longrightarrow> ch' = ch \<and> r = SendReturn (- 1)) \<and>
         (r = SendPark WaitTaken \<or> ch' = ch \<and> r = SendReturn (- 1))"
proof (cases "closed ch")
  case True
  then show ?thesis using assms by (simp add: send_handoff_def)
next
  case False
  define ch1 where "ch1 = (if buffer ch = None then ch\<lparr>buffer := malloc_doubles m 8\<rparr> else ch)"
  from assms False obtain ch2 where st: "store_slot ch1 0 v = Inr ch2"
    and w: "send_wait_taken (ch2\<lparr>count := 1\<rparr>) = Inr (ch', r)"
    by (auto simp: send_handoff_def ch1_def Let_def split: sum.splits)
  have "closed ch2 = closed ch" using slot_store(6) [OF st] by (simp add: ch1_def)
  then have "closed ch' = closed ch \<and> r = SendPark WaitTaken"
    using w False by (auto simp: send_wait_taken_def split: if_splits)
  then show ?thesis using False by simp
qed

lemma send_wait_slot_frame:
  assumes "send_wait_slot ch v m = Inr (ch', r)"
  shows "closed ch' = closed ch \<and> (closed ch \<longrightarrow> ch' = ch \<and> r = SendReturn (- 1)) \<and>
         (r = SendPark WaitTaken \<or> ch' = ch)"
proof (cases "count ch > 0 \<and> \<not> closed ch")
  case True
  then show ?thesis using assms by (simp add: send_wait_slot_def)
next
  case False
  then have "send_handoff ch v m = Inr (ch', r)"
    using assms by (auto simp: send_wait_slot_def split: if_splits)
  from send_handoff_frame [OF this] show ?thesis by blast
qed

lemma send_locked_frame:
  assumes "send_locked ch v m = Inr (ch', r)"
  shows "closed ch' = closed ch \<and> (closed ch \<longrightarrow> ch' = ch \<and> r = SendReturn (- 1)) \<and>
         (r = SendReturn (- 1) \<or> r = SendPark WaitSpace \<or> r = SendPark WaitSlot \<longrightarrow> ch' = ch)"
proof (cases "closed ch")
  case True
  then show ?thesis using assms by (simp add: send_locked_def)
next
  case op: False
  show ?thesis
  proof (cases "capacity ch = 0")
    case False
    with op assms have "send_buffered ch v = Inr (ch', r)"
      by (simp add: send_locked_def word_neq_0_conv)
    from send_buffered_frame [OF this] op show ?thesis by simp
  next
    case cap: True
    show ?thesis
    proof (cases "count ch = 0")
      case False
      with op cap assms have "send_wait_slot ch v m = Inr (ch', r)"
        by (simp add: send_locked_def send_unbuffered_def word_neq_0_conv)
      from send_wait_slot_frame [OF this] op show ?thesis by auto
    next
      case True
      with op cap assms have "send_handoff ch v m = Inr (ch', r)"
        by (simp add: send_locked_def send_unbuffered_def)
      from send_handoff_frame [OF this] op show ?thesis by auto
    qed
  qed
qed

lemma send_resume_frame:
  assumes "send_resume w ch v m = Inr (ch', r)"
  shows "closed ch' = closed ch \<and> (closed ch \<longrightarrow> ch' = ch) \<and>
         (closed ch \<and> w \<noteq> WaitTaken \<longrightarrow> r = SendReturn (- 1)) \<and>
         (r = SendReturn (- 1) \<or> r = SendPark WaitSpace \<or> r = SendPark WaitSlot \<longrightarrow> ch' = ch) \<and>
         (w = WaitTaken \<longrightarrow> ch' = ch \<and> r \<noteq> SendReturn (- 1))"
proof (cases w)
  case WaitSpace
  with assms have "send_buffered ch v = Inr (ch', r)" by simp
  from send_buffered_frame [OF this] WaitSpace show ?thesis by auto
next
  case WaitSlot
  with assms have "send_wait_slot ch v m = Inr (ch', r)" by simp
  from send_wait_slot_frame [OF this] WaitSlot show ?thesis by auto
next
  case WaitTaken
  with assms have "send_wait_taken ch = Inr (ch', r)" by simp
  from send_wait_taken_frame [OF this] WaitTaken show ?thesis by auto
qed

lemma recv_locked_frame:
  assumes "recv_locked ch = Inr (ch', r)"
  shows "closed ch' = closed ch" and "closed ch \<Longrightarrow> r \<noteq> RecvPark"
    and "closed ch \<Longrightarrow> count ch = 0 \<Longrightarrow> ch' = ch \<and> r = RecvReturn Absent"
  using assms
  by (auto simp: recv_locked_def dequeue_def split: if_splits sum.splits)

subsection \<open>A closed channel stays closed and takes no value\<close>

lemma step_closed:
  assumes "handle_closed (chan c)" "step c a = Inr (c', es)"
  shows "handle_closed (chan c') \<and> enqueued es = []"
proof -
  obtain t act m where a: "a = (t, act, m)" by (cases a)
  from assms(1) obtain ch where ch: "chan c = Some ch" and cl: "closed ch"
    by (cases "chan c") simp_all
  show ?thesis
  proof (cases act)
    case (Call k)
    show ?thesis
    proof (cases "parked (threads c t)")
      case True
      then have "c' = c \<and> es = []" using assms(2) a Call by (cases k) simp_all
      then show ?thesis using assms(1) by simp
    next
      case False
      show ?thesis
      proof (cases k)
        case (CallSend v)
        with assms(2) a Call False ch obtain ch' r where l: "send_locked ch v m = Inr (ch', r)"
          and c': "chan c' = Some ch'" and es: "es = send_events (Some ch) (Some ch') v"
          by (auto simp: channel_send_def split: sum.splits)
        from send_locked_frame [OF l] cl have "ch' = ch" by simp
        then show ?thesis using cl c' es by (simp add: send_events_def)
      next
        case CallRecv
        with assms(2) a Call False ch obtain ch' r where l: "recv_locked ch = Inr (ch', r)"
          and c': "chan c' = Some ch'" and es: "es = recv_events r"
          by (auto simp: channel_recv_def split: sum.splits)
        have "enqueued (recv_events r) = []" by (cases r rule: recv_events.cases) simp_all
        then show ?thesis using recv_locked_frame(1) [OF l] cl c' es by simp
      next
        case CallClose
        with assms(2) a Call False ch show ?thesis
          by (auto simp: channel_close_def close_locked_def)
      qed
    qed
  next
    case Resume
    show ?thesis
    proof (cases "threads c t")
      case (SendParked w v)
      with assms(2) a Resume ch obtain ch' r where l: "send_resume w ch v m = Inr (ch', r)"
        and c': "chan c' = Some ch'" and es: "es = send_events (Some ch) (Some ch') v"
        by (auto split: sum.splits)
      from send_resume_frame [OF l] cl have "ch' = ch" by simp
      then show ?thesis using cl c' es by (simp add: send_events_def)
    next
      case RecvParked
      with assms(2) a Resume ch obtain ch' r where l: "recv_locked ch = Inr (ch', r)"
        and c': "chan c' = Some ch'" and es: "es = recv_events r"
        by (auto split: sum.splits)
      have "enqueued (recv_events r) = []" by (cases r rule: recv_events.cases) simp_all
      then show ?thesis using recv_locked_frame(1) [OF l] cl c' es by simp
    next
      case Idle
      then have "c' = c \<and> es = []" using assms(2) a Resume by simp
      then show ?thesis using assms(1) by simp
    next
      case (Returned x)
      then have "c' = c \<and> es = []" using assms(2) a Resume by simp
      then show ?thesis using assms(1) by simp
    qed
  qed
qed

lemma run_closed:
  "handle_closed (chan c) \<Longrightarrow> run c s = Inr (c', es) \<Longrightarrow> handle_closed (chan c') \<and> enqueued es = []"
proof (induction s arbitrary: c c' es)
  case Nil
  then show ?case by simp
next
  case (Cons a s)
  from Cons.prems(2) obtain c1 es1 es2 where s1: "step c a = Inr (c1, es1)"
    and r: "run c1 s = Inr (c', es2)" and es: "es = es1 @ es2"
    by (auto split: sum.splits)
  from step_closed [OF Cons.prems(1) s1] Cons.IH [OF _ r] show ?case
    by (simp add: es enqueued_append)
qed

subsection \<open>Reachable states, and draining the queue\<close>

lemma reachable_inv:
  assumes "run (init (channel_create cap env)) s = Inr (c, es)"
  shows "config_inv c" and "queue_of (chan c) @ [] = queue_of (chan c)"
    and "enqueued es = received es @ queue_of (chan c)"
    and "chan c = Some ch \<Longrightarrow> chan_inv ch \<and> capacity ch = cap"
proof -
  have q: "queue_step (init (channel_create cap env)) c es"
    using create_inv assms by (rule run_queue)
  then show "config_inv c" by (simp add: queue_step_def)
  show "queue_of (chan c) @ [] = queue_of (chan c)" by simp
  from q show "enqueued es = received es @ queue_of (chan c)"
    by (simp add: queue_step_def create_queue)
  assume ch: "chan c = Some ch"
  with q have "chan_inv ch" by (simp add: queue_step_def config_inv_def)
  moreover from q ch obtain ch0 where "chan (init (channel_create cap env)) = Some ch0"
    "capacity ch0 = capacity ch"
    by (cases "chan (init (channel_create cap env))") (simp_all add: queue_step_def)
  ultimately show "chan_inv ch \<and> capacity ch = cap"
    using create_capacity by auto
qed

lemma recv_locked_nonempty:
  assumes "chan_inv ch" "count ch \<noteq> 0"
  shows "\<exists>ch' v. recv_locked ch = Inr (ch', RecvReturn (Present v)) \<and> chan_inv ch' \<and>
           pending ch = v # pending ch' \<and> closed ch' = closed ch \<and> capacity ch' = capacity ch"
proof -
  from dequeue_inv [OF assms] obtain ch' v where "dequeue ch = Inr (ch', v)"
    "chan_inv ch'" "pending ch = v # pending ch'" "closed ch' = closed ch" "capacity ch' = capacity ch"
    by blast
  then show ?thesis using assms(2) by (simp add: recv_locked_def)
qed

lemma drain:
  assumes "config_inv c" "chan c = Some ch" "\<not> parked (threads c t)"
  shows "\<exists>c'. run c (replicate (length (pending ch)) (t, Call CallRecv, m)) = Inr (c', map Deq (pending ch))
           \<and> config_inv c' \<and> queue_of (chan c') = [] \<and> handle_closed (chan c') = closed ch"
  using assms
proof (induction "length (pending ch)" arbitrary: c ch)
  case 0
  then show ?case by simp
next
  case (Suc n)
  from Suc.prems have ci: "chan_inv ch" by (simp add: config_inv_def)
  then have aw: "all_written ch" by (simp add: chan_inv_def)
  from Suc.hyps(2) length_pending [OF aw] have ne: "count ch \<noteq> 0" by auto
  from recv_locked_nonempty [OF ci ne] obtain ch' v where l: "recv_locked ch = Inr (ch', RecvReturn (Present v))"
    and p: "pending ch = v # pending ch'" and cl: "closed ch' = closed ch"
    by blast
  let ?c1 = "c\<lparr>chan := Some ch', threads := (threads c)(t := after_recv (RecvReturn (Present v)))\<rparr>"
  have s: "step c (t, Call CallRecv, m) = Inr (?c1, [Deq v])"
    using Suc.prems l by (simp add: channel_recv_def)
  have q: "queue_step c ?c1 (recv_events (RecvReturn (Present v)))"
    using Suc.prems(1,2) l by (rule queue_step_recv)
  then have i1: "config_inv ?c1" by (simp add: queue_step_def)
  have n: "n = length (pending ch')" using Suc.hyps(2) p by simp
  have "\<exists>c'. run ?c1 (replicate (length (pending ch')) (t, Call CallRecv, m)) = Inr (c', map Deq (pending ch'))
           \<and> config_inv c' \<and> queue_of (chan c') = [] \<and> handle_closed (chan c') = closed ch'"
    by (rule Suc.hyps(1) [OF n i1]) simp_all
  then obtain c' where
    r: "run ?c1 (replicate (length (pending ch')) (t, Call CallRecv, m)) = Inr (c', map Deq (pending ch'))"
    and r': "config_inv c'" "queue_of (chan c') = []" "handle_closed (chan c') = closed ch'"
    by blast
  have "run c (replicate (length (pending ch)) (t, Call CallRecv, m)) = Inr (c', map Deq (pending ch))"
    unfolding p using s r by simp
  then show ?case using r' cl by blast
qed

subsection \<open>The distance between the indices\<close>

lemma ring_distance:
  fixes w r n c :: size_t
  assumes "unat w = (unat r + unat n) mod unat c"
  shows "(uint w - uint r) mod uint c = uint n mod uint c"
proof -
  have "int (unat w) = (int (unat r) + int (unat n)) mod int (unat c)"
    unfolding assms by (simp add: zmod_int)
  then have "(int (unat w) - int (unat r)) mod int (unat c)
      = ((int (unat r) + int (unat n)) mod int (unat c) - int (unat r)) mod int (unat c)"
    by simp
  also have "\<dots> = (int (unat r) + int (unat n) - int (unat r)) mod int (unat c)"
    by (rule mod_diff_left_eq)
  finally show ?thesis by simp
qed

subsection \<open>Sections of send on a closed channel, sections that park\<close>

lemma send_closed_sections:
  assumes "closed ch"
  shows "send_locked ch v m = Inr (ch, SendReturn (- 1))"
    and "send_resume WaitSpace ch v m = Inr (ch, SendReturn (- 1))"
    and "send_resume WaitSlot ch v m = Inr (ch, SendReturn (- 1))"
    and "send_resume WaitTaken ch v m = Inr (ch, SendReturn 0)"
  using assms
  by (simp_all add: send_locked_def send_buffered_def send_wait_slot_def send_handoff_def
      send_wait_taken_def)

lemma send_park_locked:
  assumes "send_locked ch v m = Inr (ch', SendPark w')" "w' \<noteq> WaitTaken"
  shows "ch' = ch"
  using send_locked_frame [OF assms(1)] assms(2) by (cases w') simp_all

lemma send_park_resume:
  assumes "send_resume w ch v m = Inr (ch', SendPark w')" "w' \<noteq> WaitTaken"
  shows "ch' = ch \<and> w \<noteq> WaitTaken"
proof -
  from send_resume_frame [OF assms(1)] assms(2) have "ch' = ch" by (cases w') simp_all
  moreover have "w \<noteq> WaitTaken"
    using assms by (auto simp: send_wait_taken_def split: if_splits)
  ultimately show ?thesis by simp
qed

subsection \<open>A closed and empty channel\<close>

lemma close_locked_closed: "closed ch \<Longrightarrow> close_locked ch = ch"
  by (cases ch) (simp add: close_locked_def)

lemma recv_drained:
  "closed ch \<Longrightarrow> count ch = 0 \<Longrightarrow> recv_locked ch = Inr (ch, RecvReturn Absent)"
  by (simp add: recv_locked_def)

lemma drained_step:
  assumes ch: "chan c = Some ch" and cl: "closed ch" and n: "count ch = 0"
  shows "\<exists>c'. step c a = Inr (c', []) \<and> chan c' = Some ch"
proof -
  obtain t act m where a: "a = (t, act, m)" by (cases a)
  note s = send_closed_sections [OF cl]
  show ?thesis
  proof (cases act)
    case (Call k)
    show ?thesis
    proof (cases "parked (threads c t)")
      case True
      then have "step c a = Inr (c, [])" using a Call by (cases k) simp_all
      then show ?thesis using ch by simp
    next
      case False
      then show ?thesis
        using a Call ch s(1) recv_drained [OF cl n] close_locked_closed [OF cl]
        by (cases k) (simp_all add: channel_send_def channel_recv_def channel_close_def send_events_def)
    qed
  next
    case Resume
    show ?thesis
    proof (cases "threads c t")
      case (SendParked w v)
      then show ?thesis
        using a Resume ch s(2,3,4) by (cases w) (simp_all add: send_events_def)
    next
      case RecvParked
      then show ?thesis using a Resume ch recv_drained [OF cl n] by simp
    next
      case Idle
      then show ?thesis using a Resume ch by simp
    next
      case (Returned x)
      then show ?thesis using a Resume ch by simp
    qed
  qed
qed

lemma drained_run:
  "chan c = Some ch \<Longrightarrow> closed ch \<Longrightarrow> count ch = 0 \<Longrightarrow>
   \<exists>c'. run c s = Inr (c', []) \<and> chan c' = Some ch"
proof (induction s arbitrary: c)
  case Nil
  then show ?case by simp
next
  case (Cons a s)
  from drained_step [OF Cons.prems] obtain c1 where s1: "step c a = Inr (c1, [])"
    and c1: "chan c1 = Some ch" by blast
  from Cons.IH [OF c1 Cons.prems(2,3)] obtain c' where "run c1 s = Inr (c', [])" "chan c' = Some ch"
    by blast
  then show ?case using s1 by simp
qed

subsection \<open>Runs that cannot fault\<close>

lemma send_handoff_no_fault:
  assumes "chan_inv ch" "capacity ch = 0"
  shows "\<exists>ch' r. send_handoff ch v True = Inr (ch', r)"
proof (cases "closed ch")
  case True
  then show ?thesis by (simp add: send_handoff_def)
next
  case False
  define ch1 where "ch1 = (if buffer ch = None then ch\<lparr>buffer := malloc_doubles True 8\<rparr> else ch)"
  have "\<exists>xs. buffer ch1 = Some xs \<and> xs \<noteq> []"
    using assms by (cases "buffer ch") (auto simp: ch1_def malloc_doubles_def chan_inv_def)
  then obtain ch2 where "store_slot ch1 0 v = Inr ch2"
    by (auto simp: store_slot_def)
  then show ?thesis
    using False by (simp add: send_handoff_def ch1_def [symmetric] send_wait_taken_def)
qed

lemma send_unbuffered_no_fault:
  assumes "chan_inv ch" "capacity ch = 0"
  shows "\<exists>ch' r. send_locked ch v True = Inr (ch', r)"
    and "\<exists>ch' r. send_resume w ch v True = Inr (ch', r)"
proof -
  note h = send_handoff_no_fault [OF assms, of v]
  have s: "\<exists>ch' r. send_wait_slot ch v True = Inr (ch', r)"
    using h by (simp add: send_wait_slot_def)
  have b: "\<exists>ch' r. send_buffered ch v = Inr (ch', r)"
    using assms(2) by (simp add: send_buffered_def)
  show "\<exists>ch' r. send_locked ch v True = Inr (ch', r)"
    using h s assms(2) by (simp add: send_locked_def send_unbuffered_def)
  show "\<exists>ch' r. send_resume w ch v True = Inr (ch', r)"
    using s b by (cases w) (simp_all add: send_wait_taken_def)
qed

lemma step_no_fault:
  assumes inv: "config_inv c" and cap: "\<And>ch. chan c = Some ch \<Longrightarrow> capacity ch = 0"
  shows "\<exists>c' es. step c (t, act, True) = Inr (c', es)"
proof (cases "chan c")
  case None
  show ?thesis
  proof (cases act)
    case (Call k)
    then show ?thesis using None
      by (cases k) (simp_all add: channel_send_def channel_recv_def)
  next
    case Resume
    then show ?thesis using None by (simp split: pc.splits)
  qed
next
  case (Some ch)
  with inv have ci: "chan_inv ch" by (simp add: config_inv_def)
  from recv_locked_effect [OF ci] obtain ch1 r1 where rl: "recv_locked ch = Inr (ch1, r1)"
    by blast
  have True: "capacity ch = 0" using cap Some .
  from send_unbuffered_no_fault [OF ci True]
    have sl: "\<And>v. \<exists>ch' r. send_locked ch v True = Inr (ch', r)"
      and sr: "\<And>w v. \<exists>ch' r. send_resume w ch v True = Inr (ch', r)"
      by blast+
    show ?thesis
    proof (cases act)
      case (Call k)
      show ?thesis
      proof (cases k)
        case (CallSend v)
        from sl [of v] obtain ch' r where "send_locked ch v True = Inr (ch', r)" by blast
        then show ?thesis using Call CallSend Some by (simp add: channel_send_def)
      next
        case CallRecv
        then show ?thesis using Call Some rl by (simp add: channel_recv_def)
      next
        case CallClose
        then show ?thesis using Call by simp
      qed
    next
      case Resume
      show ?thesis
      proof (cases "threads c t")
        case (SendParked w v)
        from sr [of w v] obtain ch' r where "send_resume w ch v True = Inr (ch', r)" by blast
        then show ?thesis using Resume SendParked Some by simp
      next
        case RecvParked
        then show ?thesis using Resume Some rl by simp
      next
        case Idle
        then show ?thesis using Resume by simp
      next
        case (Returned x)
        then show ?thesis using Resume by simp
      qed
    qed
qed

lemma run_no_fault:
  assumes "config_inv c" and "\<And>ch. chan c = Some ch \<Longrightarrow> capacity ch = 0"
    and "list_all (\<lambda>(t, a, m). m) s"
  shows "\<exists>c' es. run c s = Inr (c', es)"
  using assms
proof (induction s arbitrary: c)
  case Nil
  then show ?case by simp
next
  case (Cons x s)
  obtain t act m where x: "x = (t, act, m)" by (cases x)
  with Cons.prems(3) have m: "m" and rest: "list_all (\<lambda>(t, a, m). m) s" by simp_all
  from step_no_fault [OF Cons.prems(1,2), of t act] m x obtain c1 es1 where
    s1: "step c x = Inr (c1, es1)" by auto
  from step_queue [OF Cons.prems(1) s1] have i1: "config_inv c1"
    and k: "handle_capacity (chan c1) = handle_capacity (chan c)"
    by (simp_all add: queue_step_def)
  have "capacity ch = 0" if "chan c1 = Some ch" for ch
    using k that Cons.prems(2) by (cases "chan c") auto
  from Cons.IH [OF i1 this rest] obtain c' es where "run c1 s = Inr (c', es)" by blast
  then show ?case using s1 by simp
qed

lemma create_ring_allocated:
  assumes "malloc_channel_ok env" "malloc_ring_ok env" "0 < cap" "unat cap < 2 ^ 61"
  shows "\<exists>ch. channel_create cap env = Some ch \<and> ring_allocated ch \<and> capacity ch = cap"
proof -
  have "unat cap * 8 < 2 ^ 64" using assms(4) by simp
  then have "unat (cap * 8) = unat cap * 8"
    by (simp add: unat_word_ariths)
  then show ?thesis
    using assms(1,2,3) by (simp add: channel_create_def malloc_doubles_def ring_allocated_def)
qed

lemma enqueue_no_fault:
  assumes "chan_inv ch" "capacity ch \<noteq> 0" "ring_allocated ch"
  shows "\<exists>ch'. enqueue ch v = Inr ch' \<and> ring_allocated ch'"
proof -
  from assms(3) obtain xs where xs: "buffer ch = Some xs" "length xs = unat (capacity ch)"
    by (auto simp: ring_allocated_def)
  from assms(1,2) have "unat (write_idx ch) < unat (capacity ch)"
    by (simp add: chan_inv_def word_less_nat_alt)
  then show ?thesis
    using xs by (simp add: enqueue_def store_slot_def ring_allocated_def)
qed

lemma send_buffered_no_fault:
  assumes "chan_inv ch" "capacity ch \<noteq> 0" "ring_allocated ch"
  shows "\<exists>ch' r. send_buffered ch v = Inr (ch', r) \<and> ring_allocated ch'"
proof -
  from enqueue_no_fault [OF assms] obtain ch' where "enqueue ch v = Inr ch'" "ring_allocated ch'"
    by blast
  then show ?thesis using assms(3) by (simp add: send_buffered_def)
qed

lemma recv_locked_buffer:
  "recv_locked ch = Inr (ch', r) \<Longrightarrow> buffer ch' = buffer ch \<and> capacity ch' = capacity ch"
  by (auto simp: recv_locked_def dequeue_def split: if_splits sum.splits)

lemma step_no_fault_buffered:
  assumes inv: "config_inv c" and ch: "chan c = Some ch" and cap: "capacity ch \<noteq> 0"
    and ra: "ring_allocated ch"
  shows "\<exists>c' es ch'. step c x = Inr (c', es) \<and> chan c' = Some ch' \<and> ring_allocated ch'"
proof -
  obtain t act m where x: "x = (t, act, m)" by (cases x)
  from inv ch have ci: "chan_inv ch" by (simp add: config_inv_def)
  have same: "\<exists>c' es ch'. Inr (c, []) = Inr (c', es) \<and> chan c' = Some ch' \<and> ring_allocated ch'"
    using ch ra by simp
  have sb: "\<exists>ch' r. send_buffered ch v = Inr (ch', r) \<and> ring_allocated ch'" for v
    using ci cap ra by (rule send_buffered_no_fault)
  from recv_locked_effect [OF ci] obtain ch1 r1 where rl: "recv_locked ch = Inr (ch1, r1)"
    by blast
  from recv_locked_buffer [OF rl] ra have r1: "ring_allocated ch1"
    by (simp add: ring_allocated_def)
  show ?thesis
  proof (cases act)
    case (Call k)
    show ?thesis
    proof (cases "parked (threads c t)")
      case True
      then have "step c x = Inr (c, [])" using x Call by (cases k) simp_all
      then show ?thesis using same by simp
    next
      case False
      show ?thesis
      proof (cases k)
        case (CallSend v)
        from sb [of v] obtain ch' r where "send_buffered ch v = Inr (ch', r)" "ring_allocated ch'"
          by blast
        moreover have "send_locked ch v m = (if closed ch then Inr (ch, SendReturn (- 1)) else send_buffered ch v)"
          using cap by (simp add: send_locked_def word_neq_0_conv)
        ultimately show ?thesis
          using x Call CallSend False ch ra by (simp add: channel_send_def)
      next
        case CallRecv
        then show ?thesis using x Call False ch rl r1 by (simp add: channel_recv_def)
      next
        case CallClose
        then show ?thesis
          using x Call False ch ra
          by (simp add: channel_close_def close_locked_def ring_allocated_def)
      qed
    qed
  next
    case Resume
    show ?thesis
    proof (cases "threads c t")
      case (SendParked w v)
      have "w \<noteq> WaitSlot"
        using inv ch cap SendParked by (auto simp: config_inv_def)
      then consider "w = WaitSpace" | "w = WaitTaken" by (cases w) simp_all
      then show ?thesis
      proof cases
        case 1
        from sb [of v] obtain ch' r where "send_buffered ch v = Inr (ch', r)" "ring_allocated ch'"
          by blast
        then show ?thesis using x Resume SendParked ch 1 by simp
      next
        case 2
        then show ?thesis
          using x Resume SendParked ch ra by (simp add: send_wait_taken_def)
      qed
    next
      case RecvParked
      then show ?thesis using x Resume ch rl r1 by simp
    next
      case Idle
      then have "step c x = Inr (c, [])" using x Resume by simp
      then show ?thesis using same by simp
    next
      case (Returned y)
      then have "step c x = Inr (c, [])" using x Resume by simp
      then show ?thesis using same by simp
    qed
  qed
qed

lemma run_no_fault_buffered:
  assumes "config_inv c" "chan c = Some ch" "capacity ch \<noteq> 0" "ring_allocated ch"
  shows "\<exists>c' es. run c s = Inr (c', es)"
  using assms
proof (induction s arbitrary: c ch)
  case Nil
  then show ?case by simp
next
  case (Cons x s)
  from step_no_fault_buffered [OF Cons.prems] obtain c1 es1 ch1 where
    s1: "step c x = Inr (c1, es1)" and c1: "chan c1 = Some ch1" and r1: "ring_allocated ch1"
    by blast
  from step_queue [OF Cons.prems(1) s1] have i1: "config_inv c1"
    and k: "handle_capacity (chan c1) = handle_capacity (chan c)"
    by (simp_all add: queue_step_def)
  from k c1 Cons.prems(2,3) have "capacity ch1 \<noteq> 0" by simp
  from Cons.IH [OF i1 c1 this r1] obtain c' es where "run c1 s = Inr (c', es)" by blast
  then show ?case using s1 by simp
qed

text \<open>
  A buffered channel whose allocations succeeded, of a capacity below \<open>2 ^ 61\<close> (so
  that \<^verbatim>\<open>capacity * sizeof(double)\<close> does not wrap), never faults, whatever the
  threads do.
\<close>

lemma buffered_runs_defined:
  assumes "malloc_channel_ok env" "malloc_ring_ok env" "0 < cap" "unat cap < 2 ^ 61"
  shows "\<exists>c es. run (init (channel_create cap env)) s = Inr (c, es)"
proof -
  from create_ring_allocated [OF assms] obtain ch where
    ch: "channel_create cap env = Some ch" "ring_allocated ch" "capacity ch = cap"
    by blast
  have "chan (init (channel_create cap env)) = Some ch" using ch(1) by (simp add: init_def)
  moreover have "capacity ch \<noteq> 0" using ch(3) assms(3) by auto
  ultimately show ?thesis using create_inv ch(2) by (blast intro: run_no_fault_buffered)
qed

subsection \<open>Unfolding a concrete run\<close>

text \<open>The definitions a concrete run unfolds.\<close>

lemmas eval_defs = all_ok_def init_def channel_create_def malloc_doubles_def
  channel_send_def send_locked_def send_buffered_def send_unbuffered_def send_wait_slot_def
  send_handoff_def send_wait_taken_def enqueue_def store_slot_def load_slot_def
  channel_recv_def recv_locked_def dequeue_def channel_close_def close_locked_def
  send_events_def

text \<open>More definitions a concrete run unfolds.\<close>

lemmas queue_defs = pending_def slot_def ring_pos_def word_le_nat_alt word_less_nat_alt

lemma upt_numeral_eval: "[0..<2] = [0, Suc 0]" "[0..<1] = [0]" "[0..<3] = [0, 1, 2]"
  by (simp_all add: upt_rec)

subsection \<open>Allocations that fail or wrap\<close>

text \<open>
  The result of the second \<^verbatim>\<open>malloc\<close> of \<^verbatim>\<open>channel_create\<close> (line 39) is not
  tested, as the first one's is (line 33). When the ring cannot be allocated, create
  still returns a handle, with a null \<^verbatim>\<open>buffer\<close>, and the first send writes
  through it.
\<close>

lemma create_ring_unchecked:
  "channel_create 4 (all_ok\<lparr>malloc_ring_ok := False\<rparr>) =
     Some \<lparr>buffer = None, read_idx = 0, write_idx = 0, count = 0, capacity = 4, closed = False\<rparr> \<and>
   run (init (channel_create 4 (all_ok\<lparr>malloc_ring_ok := False\<rparr>))) [(0, Call (CallSend 1), True)]
     = Inl NullDeref"
  by (simp add: eval_defs queue_defs)

text \<open>
  At a capacity of \<open>2 ^ 61\<close> the size wraps to 0: the ring has no slot and the first
  send writes outside it.
\<close>

lemma create_size_wraps:
  "channel_create (2 ^ 61) all_ok =
     Some \<lparr>buffer = Some [], read_idx = 0, write_idx = 0, count = 0, capacity = 2 ^ 61,
           closed = False\<rparr> \<and>
   run (init (channel_create (2 ^ 61) all_ok)) [(0, Call (CallSend 1), True)] = Inl OutOfBounds"
  by (simp add: eval_defs queue_defs)

section \<open>The claims\<close>

text \<open>
  C1 fails on an unbuffered channel that is closed while the sender waits at line 109:
  the loop of line 108 ends on \<^verbatim>\<open>closed\<close> and the code falls through to
  \<^verbatim>\<open>return 0\<close> without testing it, as the two earlier waits do (lines 69 and 92).
  Thread 0 calls \<^verbatim>\<open>send(42)\<close> on a fresh unbuffered channel and parks with the value
  deposited (count = 1); thread 1 closes, which wakes the sender; the sender returns 0.
  No receive has run: nothing was delivered, and the value is still parked.
\<close>

theorem C1_send_ok_without_receive:
  "\<exists>c1 c2 c3 ch.
     step (init (channel_create 0 all_ok)) (0, Call (CallSend 42), True) = Inr (c1, [Enq 42]) \<and>
     threads c1 0 = SendParked WaitTaken 42 \<and>
     step c1 (1, Call CallClose, True) = Inr (c2, []) \<and>
     step c2 (0, Resume, True) = Inr (c3, []) \<and>
     run (init (channel_create 0 all_ok))
       [(0, Call (CallSend 42), True), (1, Call CallClose, True), (0, Resume, True)]
       = Inr (c3, [Enq 42]) \<and>
     threads c3 0 = Returned (SendRet 0) \<and> received [Enq 42] = [] \<and>
     chan c3 = Some ch \<and> closed ch \<and> count ch = 1 \<and> pending ch = [42]"
  by (simp add: eval_defs queue_defs upt_numeral_eval)

text \<open>
  C2. For a buffered channel of capacity \<open>cap > 0\<close>, whatever the threads and their
  interleaving: at every moment of a run, the values enqueued by \<^verbatim>\<open>channel_send\<close>,
  in the order in which the sends took the mutex and deposited, are the values returned
  so far by \<^verbatim>\<open>channel_recv\<close>, in the order of their returns, followed by the
  values still waiting in the ring. And the successive calls of \<^verbatim>\<open>channel_recv\<close>
  by a thread, one per waiting value, return exactly the waiting values in that order,
  each without parking, and leave the ring empty. (A run is defined as long as no
  section faults; by \<open>buffered_runs_defined\<close> none does when the allocations succeeded.)
\<close>

theorem C2_fifo:
  assumes "0 < cap" and "run (init (channel_create cap env)) s = Inr (c, es)"
    and "chan c = Some ch"
  shows "capacity ch = cap \<and> enqueued es = received es @ pending ch \<and>
         (\<not> parked (threads c t) \<longrightarrow>
            (\<exists>c' ch'. run c (replicate (length (pending ch)) (t, Call CallRecv, m))
                        = Inr (c', map Deq (pending ch)) \<and>
                      chan c' = Some ch' \<and> pending ch' = []))"
proof -
  note r = reachable_inv [OF assms(2)]
  have "\<exists>c' ch'. run c (replicate (length (pending ch)) (t, Call CallRecv, m))
                        = Inr (c', map Deq (pending ch)) \<and>
                      chan c' = Some ch' \<and> pending ch' = []" if np: "\<not> parked (threads c t)"
  proof -
    from drain [OF r(1) assms(3) np, of m] obtain c' where
      d: "run c (replicate (length (pending ch)) (t, Call CallRecv, m)) = Inr (c', map Deq (pending ch))"
      and q: "queue_of (chan c') = []" and i: "config_inv c'" by blast
    from run_queue [OF r(1) d] assms(3) obtain ch' where "chan c' = Some ch'"
      by (cases "chan c'") (simp_all add: queue_step_def)
    with d q show ?thesis by auto
  qed
  then show ?thesis using r(3,4) assms(3) by simp
qed

theorem C2_fifo_witness:
  "0 < (2::size_t) \<and>
   (\<exists>c es ch. run (init (channel_create 2 all_ok))
        [(0, Call (CallSend 7), True), (0, Call (CallSend 8), True), (0, Call (CallSend 9), True),
         (1, Call CallRecv, True), (0, Resume, True)] = Inr (c, es) \<and>
      chan c = Some ch \<and> es = [Enq 7, Enq 8, Deq 7, Enq 9] \<and> pending ch = [8, 9] \<and>
      enqueued es = received es @ pending ch \<and> \<not> parked (threads c 1) \<and>
      (\<exists>c'. run c (replicate (length (pending ch)) (1, Call CallRecv, True)) = Inr (c', [Deq 8, Deq 9])))"
proof -
  let ?s = "[(0, Call (CallSend 7), True), (0, Call (CallSend 8), True), (0, Call (CallSend 9), True),
         (1, Call CallRecv, True), (0::nat, Resume, True)]"
  have "\<exists>c es ch. run (init (channel_create 2 all_ok)) ?s = Inr (c, es) \<and> chan c = Some ch \<and>
      es = [Enq 7, Enq 8, Deq 7, Enq 9] \<and> pending ch = [8, 9] \<and> \<not> parked (threads c 1)"
    by (simp add: eval_defs queue_defs upt_numeral_eval)
  then obtain c es ch where r: "run (init (channel_create 2 all_ok)) ?s = Inr (c, es)"
    and ch: "chan c = Some ch" and es: "es = [Enq 7, Enq 8, Deq 7, Enq 9]"
    and p: "pending ch = [8, 9]" and np: "\<not> parked (threads c 1)"
    by blast
  have pos: "0 < (2::size_t)" by simp
  from C2_fifo [OF pos r ch, of 1 True] np p
  have "enqueued es = received es @ pending ch"
    and "\<exists>c'. run c (replicate (length (pending ch)) (1, Call CallRecv, True)) = Inr (c', [Deq 8, Deq 9])"
    by auto
  with r ch es p np pos show ?thesis by blast
qed

text \<open>
  C3. Take any state a channel can reach in which it is closed, with the values
  \<open>pending ch\<close> enqueued before the close and not yet received. In every run from
  there (any threads, any interleaving) nothing more is enqueued, the channel stays
  closed, and the values the receives return, in order, followed by the values still
  waiting, are \<open>pending ch\<close>: receives deliver the values enqueued before the close in
  FIFO order. A thread calling \<^verbatim>\<open>channel_recv\<close> once per waiting value gets them
  all, without parking, and leaves count = 0. Once count is 0, \<^verbatim>\<open>channel_recv\<close>
  returns the drained-closed result (0.0, absent) in its first section and leaves the
  channel as it is; and any further run of any calls changes nothing in the channel and
  delivers nothing, so this holds for every later receive.
\<close>

theorem C3_drain_then_closed:
  assumes "run (init (channel_create cap env)) s1 = Inr (c, es1)"
    and "chan c = Some ch" and "closed ch"
    and "run c s2 = Inr (c', es2)"
  shows "\<exists>ch'. chan c' = Some ch' \<and> closed ch' \<and> enqueued es2 = [] \<and>
           received es2 @ pending ch' = pending ch \<and>
           (\<not> parked (threads c' t) \<longrightarrow>
              (\<exists>c'' ch''. run c' (replicate (length (pending ch')) (t, Call CallRecv, m))
                             = Inr (c'', map Deq (pending ch')) \<and>
                           chan c'' = Some ch'' \<and> closed ch'' \<and> count ch'' = 0)) \<and>
           (count ch' = 0 \<longrightarrow>
              recv_locked ch' = Inr (ch', RecvReturn Absent) \<and> recv_value Absent = 0 \<and>
              (\<exists>c''. run c' s3 = Inr (c'', []) \<and> chan c'' = Some ch'))"
proof -
  have inv: "config_inv c" using reachable_inv(1) [OF assms(1)] .
  have q: "queue_step c c' es2" using inv assms(4) by (rule run_queue)
  then have inv': "config_inv c'" by (simp add: queue_step_def)
  from assms(2,3) have "handle_closed (chan c)" by simp
  from run_closed [OF this assms(4)] have cl': "handle_closed (chan c')" and e: "enqueued es2 = []"
    by simp_all
  from cl' obtain ch' where ch': "chan c' = Some ch'" and c2: "closed ch'"
    by (cases "chan c'") simp_all
  from q e assms(2) ch' have p: "received es2 @ pending ch' = pending ch"
    by (simp add: queue_step_def)
  have d: "\<exists>c'' ch''. run c' (replicate (length (pending ch')) (t, Call CallRecv, m))
                             = Inr (c'', map Deq (pending ch')) \<and>
                           chan c'' = Some ch'' \<and> closed ch'' \<and> count ch'' = 0"
    if np: "\<not> parked (threads c' t)"
  proof -
    from drain [OF inv' ch' np, of m] obtain c'' where
      r: "run c' (replicate (length (pending ch')) (t, Call CallRecv, m)) = Inr (c'', map Deq (pending ch'))"
      and i: "config_inv c''" and e: "queue_of (chan c'') = []"
      and k: "handle_closed (chan c'') = closed ch'"
      by blast
    from k c2 obtain ch'' where c'': "chan c'' = Some ch''" "closed ch''"
      by (cases "chan c''") simp_all
    from i c'' have "all_written ch''" by (simp add: config_inv_def chan_inv_def)
    from length_pending [OF this] e c'' have "unat (count ch'') = 0" by simp
    then have "count ch'' = 0" by (simp add: unat_eq_zero)
    with r c'' show ?thesis by blast
  qed
  have z: "recv_locked ch' = Inr (ch', RecvReturn Absent) \<and> recv_value Absent = 0 \<and>
              (\<exists>c''. run c' s3 = Inr (c'', []) \<and> chan c'' = Some ch')" if "count ch' = 0"
    using recv_drained [OF c2 that] drained_run [OF ch' c2 that] by simp
  from ch' c2 e p d z show ?thesis by blast
qed

theorem C3_drain_then_closed_witness:
  "\<exists>c es1 ch c' ch'.
     run (init (channel_create 2 all_ok))
       [(0, Call (CallSend 7), True), (0, Call (CallSend 8), True), (1, Call CallClose, True)]
       = Inr (c, es1) \<and>
     chan c = Some ch \<and> closed ch \<and> pending ch = [7, 8] \<and>
     run c [(2, Call CallRecv, True), (0, Call (CallSend 9), True), (3, Call CallRecv, True)]
       = Inr (c', [Deq 7, Deq 8]) \<and>
     chan c' = Some ch' \<and> closed ch' \<and> count ch' = 0 \<and> pending ch' = [] \<and>
     \<not> parked (threads c' 2) \<and>
     recv_locked ch' = Inr (ch', RecvReturn Absent) \<and>
     (\<exists>c''. run c' [(2, Call CallRecv, True), (0, Call (CallSend 9), True), (1, Call CallClose, True),
                     (3, Call CallRecv, True)] = Inr (c'', []) \<and> chan c'' = Some ch')"
proof -
  let ?s1 = "[(0, Call (CallSend 7), True), (0, Call (CallSend 8), True), (1::nat, Call CallClose, True)]"
  let ?s2 = "[(2, Call CallRecv, True), (0, Call (CallSend 9), True), (3::nat, Call CallRecv, True)]"
  let ?s3 = "[(2, Call CallRecv, True), (0, Call (CallSend 9), True), (1, Call CallClose, True),
                     (3::nat, Call CallRecv, True)]"
  have "\<exists>c es1 ch. run (init (channel_create 2 all_ok)) ?s1 = Inr (c, es1) \<and>
     chan c = Some ch \<and> closed ch \<and> pending ch = [7, 8] \<and>
     (\<exists>c' ch'. run c ?s2 = Inr (c', [Deq 7, Deq 8]) \<and> chan c' = Some ch' \<and> count ch' = 0 \<and>
        \<not> parked (threads c' 2))"
    by (simp add: eval_defs queue_defs upt_numeral_eval)
  then obtain c es1 ch c' ch' where r: "run (init (channel_create 2 all_ok)) ?s1 = Inr (c, es1)"
    "chan c = Some ch" "closed ch" "pending ch = [7, 8]"
    "run c ?s2 = Inr (c', [Deq 7, Deq 8])" "chan c' = Some ch'" "count ch' = 0"
    "\<not> parked (threads c' 2)"
    by blast
  from C3_drain_then_closed [OF r(1,2,3,5), of 2 True ?s3] r(6,7,4)
  have "closed ch' \<and> pending ch' = [] \<and> recv_locked ch' = Inr (ch', RecvReturn Absent) \<and>
     (\<exists>c''. run c' ?s3 = Inr (c'', []) \<and> chan c'' = Some ch')"
    by auto
  with r show ?thesis by blast
qed

text \<open>
  C4. A \<^verbatim>\<open>channel_send\<close> that takes the mutex (line 55) after a
  \<^verbatim>\<open>channel_close\<close> returns the closed signal (-1) and leaves the channel as it is;
  so does a send that comes back from the wait of line 66 or of line 88 and finds the
  channel closed. No section of send changes a closed channel at all (the one that
  comes back from the wait of line 109 changes nothing either, and returns 0), and a
  run that starts with the channel closed enqueues nothing and keeps it closed.
\<close>

theorem C4_closed_rejects_send:
  "channel_send (channel_close h) v m = Inr (channel_close h, SendReturn (- 1)) \<and>
   (closed ch \<longrightarrow>
      send_locked ch v m = Inr (ch, SendReturn (- 1)) \<and>
      send_resume WaitSpace ch v m = Inr (ch, SendReturn (- 1)) \<and>
      send_resume WaitSlot ch v m = Inr (ch, SendReturn (- 1)) \<and>
      send_resume WaitTaken ch v m = Inr (ch, SendReturn 0)) \<and>
   (handle_closed (chan c) \<and> run c s = Inr (c', es) \<longrightarrow>
      enqueued es = [] \<and> handle_closed (chan c'))"
proof -
  have "channel_send (channel_close h) v m = Inr (channel_close h, SendReturn (- 1))"
    by (cases h) (simp_all add: channel_send_def channel_close_def close_locked_def send_locked_def)
  then show ?thesis
    using send_closed_sections [of ch v m] run_closed [of c s c' es] by blast
qed

theorem C4_closed_rejects_send_witness:
  "(\<exists>ch. channel_close (channel_create 1 all_ok) = Some ch \<and> closed ch \<and>
      send_locked ch 5 True = Inr (ch, SendReturn (- 1)) \<and>
      send_resume WaitSpace ch 5 True = Inr (ch, SendReturn (- 1))) \<and>
   (\<exists>c c' es. run (init (channel_create 1 all_ok))
         [(0, Call (CallSend 1), True), (1, Call (CallSend 2), True), (2, Call CallClose, True)]
         = Inr (c, [Enq 1]) \<and>
      handle_closed (chan c) \<and> threads c 1 = SendParked WaitSpace 2 \<and>
      run c [(1, Resume, True), (3, Call (CallSend 3), True), (4, Call CallRecv, True)] = Inr (c', es) \<and>
      threads c' 1 = Returned (SendRet (- 1)) \<and> threads c' 3 = Returned (SendRet (- 1)) \<and>
      es = [Deq 1] \<and> enqueued es = [] \<and> handle_closed (chan c'))"
proof -
  have "\<exists>ch. channel_close (channel_create 1 all_ok) = Some ch \<and> closed ch"
    by (simp add: eval_defs)
  then obtain ch where ch: "channel_close (channel_create 1 all_ok) = Some ch" "closed ch"
    by blast
  note a = C4_closed_rejects_send [of "channel_create 1 all_ok" 5 True ch "init None" "[]" "init None" "[]"]
  from a ch have 1: "send_locked ch 5 True = Inr (ch, SendReturn (- 1))"
    "send_resume WaitSpace ch 5 True = Inr (ch, SendReturn (- 1))" by simp_all
  let ?s1 = "[(0, Call (CallSend 1), True), (1, Call (CallSend 2), True), (2::nat, Call CallClose, True)]"
  let ?s2 = "[(1, Resume, True), (3, Call (CallSend 3), True), (4::nat, Call CallRecv, True)]"
  have "\<exists>c. run (init (channel_create 1 all_ok)) ?s1 = Inr (c, [Enq 1]) \<and> handle_closed (chan c) \<and>
      threads c 1 = SendParked WaitSpace 2 \<and>
      (\<exists>c' es. run c ?s2 = Inr (c', es) \<and> threads c' 1 = Returned (SendRet (- 1)) \<and>
         threads c' 3 = Returned (SendRet (- 1)) \<and> es = [Deq 1])"
    by (simp add: eval_defs queue_defs)
  then obtain c c' es where r: "run (init (channel_create 1 all_ok)) ?s1 = Inr (c, [Enq 1])"
    "handle_closed (chan c)" "threads c 1 = SendParked WaitSpace 2"
    "run c ?s2 = Inr (c', es)" "threads c' 1 = Returned (SendRet (- 1))"
    "threads c' 3 = Returned (SendRet (- 1))" "es = [Deq 1]"
    by blast
  from C4_closed_rejects_send [of None 0 True ch c ?s2 c' es] r
  have "enqueued es = [] \<and> handle_closed (chan c')" by blast
  with ch 1 r show ?thesis by blast
qed

text \<open>
  C5 as stated fails: \<^verbatim>\<open>channel_create\<close> does not look at what the initialisers
  of the mutex and of the condition variables return. With
  \<^verbatim>\<open>pthread_mutex_init\<close> failing (12 is \<^verbatim>\<open>ENOMEM\<close>) and both allocations
  succeeding, create returns a handle that is not null.
\<close>

theorem C5_init_failure_not_null:
  "mutex_init_rc (all_ok\<lparr>mutex_init_rc := 12\<rparr>) \<noteq> 0 \<and>
   channel_create 4 (all_ok\<lparr>mutex_init_rc := 12\<rparr>) =
     Some \<lparr>buffer = Some (replicate 4 None), read_idx = 0, write_idx = 0, count = 0,
           capacity = 4, closed = False\<rparr>"
  by (simp add: all_ok_def channel_create_def malloc_doubles_def)

text \<open>
  C5, amended. \<^verbatim>\<open>channel_create(capacity)\<close> returns the null handle when the
  memory for the channel structure cannot be obtained. What the initialisers of the
  mutex and of the two condition variables return has no effect on the result. When the
  allocations succeed (the structure, and the ring for capacity > 0), create returns a
  handle that is not null, to an open channel with count = 0, read_idx = write_idx = 0,
  the given capacity, and a ring exactly when capacity > 0.
\<close>

theorem C5_create_amended:
  "(\<not> malloc_channel_ok env \<longrightarrow> channel_create cap env = None) \<and>
   channel_create cap (env\<lparr>mutex_init_rc := a, cond_send_init_rc := b, cond_recv_init_rc := d\<rparr>)
     = channel_create cap env \<and>
   (malloc_channel_ok env \<and> (0 < cap \<longrightarrow> malloc_ring_ok env) \<longrightarrow>
      (\<exists>ch. channel_create cap env = Some ch \<and> (buffer ch \<noteq> None \<longleftrightarrow> 0 < cap) \<and>
            count ch = 0 \<and> read_idx ch = 0 \<and> write_idx ch = 0 \<and> capacity ch = cap \<and>
            \<not> closed ch))"
  by (simp add: channel_create_def malloc_doubles_def)

theorem C5_create_amended_witness:
  "channel_create 4 (all_ok\<lparr>malloc_channel_ok := False\<rparr>) = None \<and>
   channel_create 4 (all_ok\<lparr>mutex_init_rc := 12, cond_send_init_rc := 11, cond_recv_init_rc := 12\<rparr>)
     = channel_create 4 all_ok \<and>
   (\<exists>ch. channel_create 4 all_ok = Some ch \<and> buffer ch \<noteq> None \<and> count ch = 0 \<and>
         read_idx ch = 0 \<and> write_idx ch = 0 \<and> capacity ch = 4 \<and> \<not> closed ch) \<and>
   (\<exists>ch. channel_create 0 all_ok = Some ch \<and> buffer ch = None \<and> capacity ch = 0)"
proof -
  have ok: "malloc_channel_ok all_ok" "malloc_ring_ok all_ok"
    "\<not> malloc_channel_ok (all_ok\<lparr>malloc_channel_ok := False\<rparr>)"
    by (simp_all add: all_ok_def)
  from C5_create_amended [of "all_ok\<lparr>malloc_channel_ok := False\<rparr>" 4 0 0 0] ok(3)
  have 1: "channel_create 4 (all_ok\<lparr>malloc_channel_ok := False\<rparr>) = None" by blast
  from C5_create_amended [of all_ok 4 12 11 12] ok(1,2)
  have 2: "channel_create 4 (all_ok\<lparr>mutex_init_rc := 12, cond_send_init_rc := 11, cond_recv_init_rc := 12\<rparr>)
     = channel_create 4 all_ok"
    and 3: "\<exists>ch. channel_create 4 all_ok = Some ch \<and> buffer ch \<noteq> None \<and> count ch = 0 \<and>
         read_idx ch = 0 \<and> write_idx ch = 0 \<and> capacity ch = 4 \<and> \<not> closed ch"
    by auto
  from C5_create_amended [of all_ok 0 0 0 0] ok(1)
  have 4: "\<exists>ch. channel_create 0 all_ok = Some ch \<and> buffer ch = None \<and> capacity ch = 0"
    by auto
  from 1 2 3 4 show ?thesis by blast
qed

text \<open>
  C6. Starting from the state \<^verbatim>\<open>channel_create\<close> makes (count = 0, read_idx =
  write_idx = 0), after every section of every operation, in every interleaving: for a
  buffered channel, (write_idx - read_idx) mod capacity = count mod capacity (over the
  integers), count = capacity exactly when the ring is full (the test of line 65), and
  0 <= count <= capacity, with both indices below capacity; for an unbuffered channel,
  0 <= count <= 1. The capacity is the one given to create, and count is the number of
  waiting values.
\<close>

theorem C6_ring_invariants:
  assumes "run (init (channel_create cap env)) s = Inr (c, es)" and "chan c = Some ch"
  shows "capacity ch = cap \<and> length (pending ch) = unat (count ch) \<and>
         (if 0 < capacity ch
          then (uint (write_idx ch) - uint (read_idx ch)) mod uint (capacity ch)
                 = uint (count ch) mod uint (capacity ch) \<and>
               (count ch = capacity ch \<longleftrightarrow> ring_full ch) \<and>
               0 \<le> count ch \<and> count ch \<le> capacity ch \<and>
               read_idx ch < capacity ch \<and> write_idx ch < capacity ch
          else 0 \<le> count ch \<and> count ch \<le> 1)"
proof -
  from reachable_inv(4) [OF assms] have inv: "chan_inv ch" and cap: "capacity ch = cap"
    by simp_all
  then have len: "length (pending ch) = unat (count ch)"
    by (simp add: chan_inv_def length_pending)
  show ?thesis
  proof (cases "capacity ch = 0")
    case True
    with inv cap len show ?thesis by (simp add: chan_inv_def)
  next
    case False
    with inv have b: "read_idx ch < capacity ch" "write_idx ch < capacity ch"
      "count ch \<le> capacity ch"
      and w: "unat (write_idx ch) = (unat (read_idx ch) + unat (count ch)) mod unat (capacity ch)"
      by (simp_all add: chan_inv_def)
    have "count ch = capacity ch \<longleftrightarrow> ring_full ch"
      using b(3) by (auto simp: ring_full_def)
    with False b ring_distance [OF w] cap len show ?thesis
      by (simp add: word_neq_0_conv)
  qed
qed

theorem C6_ring_invariants_witness:
  "\<exists>c es ch. run (init (channel_create 2 all_ok))
        [(0, Call (CallSend 7), True), (0, Call (CallSend 8), True), (0, Call (CallSend 9), True),
         (1, Call CallRecv, True), (0, Resume, True)] = Inr (c, es) \<and>
      chan c = Some ch \<and> capacity ch = 2 \<and> count ch = 2 \<and> read_idx ch = 1 \<and> write_idx ch = 1 \<and>
      ring_full ch \<and>
      (uint (write_idx ch) - uint (read_idx ch)) mod uint (capacity ch) = uint (count ch) mod uint (capacity ch)"
proof -
  let ?s = "[(0, Call (CallSend 7), True), (0, Call (CallSend 8), True), (0, Call (CallSend 9), True),
         (1, Call CallRecv, True), (0::nat, Resume, True)]"
  have "\<exists>c es ch. run (init (channel_create 2 all_ok)) ?s = Inr (c, es) \<and> chan c = Some ch \<and>
      count ch = 2 \<and> read_idx ch = 1 \<and> write_idx ch = 1"
    by (simp add: eval_defs queue_defs)
  then obtain c es ch where r: "run (init (channel_create 2 all_ok)) ?s = Inr (c, es)"
    and ch: "chan c = Some ch" and v: "count ch = 2" "read_idx ch = 1" "write_idx ch = 1"
    by blast
  from C6_ring_invariants [OF r ch] have "capacity ch = 2" by simp
  with C6_ring_invariants [OF r ch] v have "ring_full ch"
    and "(uint (write_idx ch) - uint (read_idx ch)) mod uint (capacity ch) = uint (count ch) mod uint (capacity ch)"
    by simp_all
  with r ch v \<open>capacity ch = 2\<close> show ?thesis by blast
qed

text \<open>
  C7. \<^verbatim>\<open>channel_close\<close> is idempotent: closing a closed channel gives the state
  of a single close. On a non-null handle close sets \<^verbatim>\<open>closed\<close>, and
  \<^verbatim>\<open>closed\<close> is monotone: from a configuration whose channel is closed, every
  run (any calls and resumptions of any threads) ends with the channel closed.
\<close>

theorem C7_close_idempotent:
  "channel_close (channel_close h) = channel_close h \<and>
   (h \<noteq> None \<longrightarrow> handle_closed (channel_close h)) \<and>
   (handle_closed (chan c) \<and> run c s = Inr (c', es) \<longrightarrow> handle_closed (chan c'))"
  using run_closed [of c s c' es]
  by (cases h) (auto simp: channel_close_def close_locked_def)

theorem C7_close_idempotent_witness:
  "channel_create 2 all_ok \<noteq> None \<and>
   handle_closed (channel_close (channel_create 2 all_ok)) \<and>
   (\<exists>c' es. run (init (channel_close (channel_create 2 all_ok)))
       [(0, Call (CallSend 7), True), (1, Call CallRecv, True), (2, Call CallClose, True)] = Inr (c', es) \<and>
     handle_closed (chan c'))"
proof -
  let ?h = "channel_create 2 all_ok"
  let ?s = "[(0, Call (CallSend 7), True), (1, Call CallRecv, True), (2, Call CallClose, True)]"
  have h: "?h \<noteq> None" by (simp add: eval_defs)
  have "\<exists>c' es. run (init (channel_close ?h)) ?s = Inr (c', es)"
    by (simp add: eval_defs)
  then obtain c' es where r: "run (init (channel_close ?h)) ?s = Inr (c', es)" by blast
  have c: "handle_closed (chan (init (channel_close ?h)))" by (simp add: eval_defs)
  from C7_close_idempotent [of ?h "init (channel_close ?h)" ?s c' es] h c r
  show ?thesis by (auto simp: init_def)
qed

text \<open>
  C8. For a null handle, \<^verbatim>\<open>channel_send\<close> returns the closed signal (-1) at once
  and \<^verbatim>\<open>channel_recv\<close> returns 0.0 (absent) at once: neither parks, and there is no
  channel state behind the handle before or after. In a configuration whose handle is
  null the call only changes the caller, to the state of having returned.
\<close>

theorem C8_null_handle:
  "channel_send None v m = Inr (None, SendReturn (- 1)) \<and>
   channel_recv None = Inr (None, RecvReturn Absent) \<and> recv_value Absent = 0 \<and>
   step (init None) (t, Call (CallSend v), m) =
     Inr (\<lparr>chan = None, threads = (\<lambda>u. Idle)(t := Returned (SendRet (- 1)))\<rparr>, []) \<and>
   step (init None) (t, Call CallRecv, m) =
     Inr (\<lparr>chan = None, threads = (\<lambda>u. Idle)(t := Returned (RecvRet Absent))\<rparr>, [])"
  by (simp add: channel_send_def channel_recv_def init_def send_events_def)

text \<open>
  C9. When \<^verbatim>\<open>channel_send\<close> returns -1 on a non-null handle, the section that
  returns it leaves the channel (buffer, read_idx, write_idx, count, and the rest)
  exactly as it was when that section took the mutex. The earlier sections of the same
  call did the same: -1 is never returned after the wait of line 109, so they ended in
  the waits of line 66 or 88, and a section that ends there changes nothing. A rejected
  send enqueues nothing.
\<close>

theorem C9_rejected_send_atomic:
  "(send_locked ch v m = Inr (ch', SendReturn (- 1)) \<longrightarrow> ch' = ch) \<and>
   (send_resume w ch v m = Inr (ch', SendReturn (- 1)) \<longrightarrow> ch' = ch \<and> w \<noteq> WaitTaken) \<and>
   (send_locked ch v m = Inr (ch', SendPark w') \<and> w' \<noteq> WaitTaken \<longrightarrow> ch' = ch) \<and>
   (send_resume w ch v m = Inr (ch', SendPark w') \<and> w' \<noteq> WaitTaken \<longrightarrow> ch' = ch \<and> w \<noteq> WaitTaken) \<and>
   (channel_send (Some ch) v m = Inr (h', SendReturn (- 1)) \<longrightarrow>
      h' = Some ch \<and> send_events (Some ch) h' v = [])"
proof -
  have 1: "ch' = ch" if "send_locked ch v m = Inr (ch', SendReturn (- 1))"
    using send_locked_frame [OF that] by simp
  have 2: "ch' = ch \<and> w \<noteq> WaitTaken" if "send_resume w ch v m = Inr (ch', SendReturn (- 1))"
    using send_resume_frame [OF that] by auto
  have 5: "h' = Some ch \<and> send_events (Some ch) h' v = []"
    if "channel_send (Some ch) v m = Inr (h', SendReturn (- 1))"
  proof -
    from that obtain ch2 where l: "send_locked ch v m = Inr (ch2, SendReturn (- 1))" and h': "h' = Some ch2"
      by (auto simp: channel_send_def split: sum.splits)
    from send_locked_frame [OF l] have "ch2 = ch" by simp
    then show ?thesis using h' by (simp add: send_events_def)
  qed
  from 1 2 5 send_park_locked [of ch v m ch' w'] send_park_resume [of w ch v m ch' w']
  show ?thesis by blast
qed

theorem C9_rejected_send_atomic_witness:
  "\<exists>c ch. run (init (channel_create 1 all_ok))
        [(0, Call (CallSend 1), True), (1, Call (CallSend 2), True)] = Inr (c, [Enq 1]) \<and>
      chan c = Some ch \<and> threads c 1 = SendParked WaitSpace 2 \<and>
      send_locked ch 3 True = Inr (ch, SendPark WaitSpace) \<and>
      send_resume WaitSpace ch 2 True = Inr (ch, SendPark WaitSpace) \<and>
      send_resume WaitSpace (close_locked ch) 2 True = Inr (close_locked ch, SendReturn (- 1)) \<and>
      send_locked (close_locked ch) 3 True = Inr (close_locked ch, SendReturn (- 1)) \<and>
      channel_send (Some (close_locked ch)) 3 True = Inr (Some (close_locked ch), SendReturn (- 1)) \<and>
      send_events (Some (close_locked ch)) (Some (close_locked ch)) 3 = []"
proof -
  let ?s = "[(0, Call (CallSend 1), True), (1::nat, Call (CallSend 2), True)]"
  have "\<exists>c ch. run (init (channel_create 1 all_ok)) ?s = Inr (c, [Enq 1]) \<and> chan c = Some ch \<and>
      threads c 1 = SendParked WaitSpace 2 \<and>
      (\<exists>x. send_locked ch 3 True = Inr (x, SendPark WaitSpace)) \<and>
      (\<exists>x. send_resume WaitSpace ch 2 True = Inr (x, SendPark WaitSpace)) \<and>
      (\<exists>x. send_resume WaitSpace (close_locked ch) 2 True = Inr (x, SendReturn (- 1))) \<and>
      (\<exists>x. send_locked (close_locked ch) 3 True = Inr (x, SendReturn (- 1))) \<and>
      (\<exists>x. channel_send (Some (close_locked ch)) 3 True = Inr (x, SendReturn (- 1)))"
    by (simp add: eval_defs queue_defs)
  then obtain c ch x1 x2 x3 x4 x5 where r: "run (init (channel_create 1 all_ok)) ?s = Inr (c, [Enq 1])"
    "chan c = Some ch" "threads c 1 = SendParked WaitSpace 2"
    and x: "send_locked ch 3 True = Inr (x1, SendPark WaitSpace)"
    "send_resume WaitSpace ch 2 True = Inr (x2, SendPark WaitSpace)"
    "send_resume WaitSpace (close_locked ch) 2 True = Inr (x3, SendReturn (- 1))"
    "send_locked (close_locked ch) 3 True = Inr (x4, SendReturn (- 1))"
    "channel_send (Some (close_locked ch)) 3 True = Inr (x5, SendReturn (- 1))"
    by blast
  from C9_rejected_send_atomic [of ch 3 True x1 WaitSpace WaitSpace] x(1) have 1: "x1 = ch" by simp
  from C9_rejected_send_atomic [of ch 2 True x2 WaitSpace WaitSpace] x(2) have 2: "x2 = ch" by simp
  from C9_rejected_send_atomic [of "close_locked ch" 2 True x3 WaitSpace] x(3)
  have 3: "x3 = close_locked ch" by simp
  from C9_rejected_send_atomic [of "close_locked ch" 3 True x4] x(4)
  have 4: "x4 = close_locked ch" by simp
  from C9_rejected_send_atomic [of "close_locked ch" 3 True ch WaitSpace WaitSpace x5] x(5)
  have 5: "x5 = Some (close_locked ch)" "send_events (Some (close_locked ch)) x5 3 = []" by blast+
  from r x 1 2 3 4 5 show ?thesis by blast
qed

text \<open>
  C10. On an unbuffered channel, when every allocation succeeds, no run faults: no
  section of send or receive reads or writes through a null or too short
  \<^verbatim>\<open>buffer\<close>, or reads a slot never written. In every state reached, count = 1
  implies that \<^verbatim>\<open>buffer\<close> is not null (send allocated the hand-off slot and
  wrote it before it set count), count is 0 or 1, and \<^verbatim>\<open>channel_recv\<close> completes
  its section without a fault, so its read of \<^verbatim>\<open>buffer[0]\<close> is of an allocated,
  written slot.
\<close>

theorem C10_handoff_slot_allocated:
  assumes "list_all (\<lambda>(t, a, m). m) s"
  shows "\<exists>c es. run (init (channel_create 0 env)) s = Inr (c, es) \<and>
           (case chan c of
              None \<Rightarrow> \<not> malloc_channel_ok env
            | Some ch \<Rightarrow>
                capacity ch = 0 \<and> (count ch = 0 \<or> count ch = 1) \<and>
                (count ch = 1 \<longrightarrow> buffer ch \<noteq> None \<and> (\<exists>v. load_slot ch 0 = Inr v)) \<and>
                (\<exists>ch' r. recv_locked ch = Inr (ch', r)))"
proof -
  let ?c0 = "init (channel_create 0 env)"
  have c0: "capacity ch = 0" if "chan ?c0 = Some ch" for ch
    using that by (rule create_capacity)
  from run_no_fault [OF create_inv c0 assms] obtain c es where r: "run ?c0 s = Inr (c, es)"
    by blast
  note i = reachable_inv [OF r]
  show ?thesis
  proof (cases "chan c")
    case None
    from run_queue [OF create_inv r] None have "chan ?c0 = None"
      by (cases "chan ?c0") (simp_all add: queue_step_def)
    then have "\<not> malloc_channel_ok env" by (simp add: init_def channel_create_def split: if_splits)
    with r None show ?thesis by simp
  next
    case (Some ch)
    from i(4) [OF Some] have ci: "chan_inv ch" and cap: "capacity ch = 0" by simp_all
    then have n: "count ch = 0 \<or> count ch = 1" and aw: "all_written ch"
      using le_one_cases by (simp_all add: chan_inv_def)
    have b: "buffer ch \<noteq> None \<and> (\<exists>v. load_slot ch 0 = Inr v)" if "count ch = 1"
    proof -
      from pendingD [OF aw, of 0] that cap have s0: "slot ch 0 = Some (pending ch ! 0)"
        by (simp add: ring_pos_def)
      then have "buffer ch \<noteq> None" by (auto simp: slot_def split: option.splits)
      moreover from s0 have "load_slot ch 0 = Inr (pending ch ! 0)"
        using load_slot_written [of ch 0] by simp
      ultimately show ?thesis by blast
    qed
    from recv_locked_effect [OF ci] have "\<exists>ch' r. recv_locked ch = Inr (ch', r)" by blast
    with r Some cap n b show ?thesis by auto
  qed
qed

theorem C10_handoff_slot_allocated_witness:
  "list_all (\<lambda>(t, a, m). m)
     [(0, Call (CallSend 42), True), (1, Call CallRecv, True), (0, Resume, True),
      (2::tid, Call (CallSend 43), True)] \<and>
   (\<exists>c ch. run (init (channel_create 0 all_ok))
       [(0, Call (CallSend 42), True), (1, Call CallRecv, True), (0, Resume, True),
        (2, Call (CallSend 43), True)] = Inr (c, [Enq 42, Deq 42, Enq 43]) \<and>
      chan c = Some ch \<and> count ch = 1 \<and> buffer ch \<noteq> None \<and>
      threads c 0 = Returned (SendRet 0) \<and> threads c 1 = Returned (RecvRet (Present 42)) \<and>
      (\<exists>ch' r. recv_locked ch = Inr (ch', r)))"
proof -
  let ?s = "[(0, Call (CallSend 42), True), (1, Call CallRecv, True), (0, Resume, True),
      (2::nat, Call (CallSend 43), True)]"
  have a: "list_all (\<lambda>(t, a, m). m) ?s" by simp
  have e: "\<exists>c ch. run (init (channel_create 0 all_ok)) ?s = Inr (c, [Enq 42, Deq 42, Enq 43]) \<and>
      chan c = Some ch \<and> count ch = 1 \<and>
      threads c 0 = Returned (SendRet 0) \<and> threads c 1 = Returned (RecvRet (Present 42))"
    by (simp add: eval_defs queue_defs)
  then obtain c ch where r: "run (init (channel_create 0 all_ok)) ?s = Inr (c, [Enq 42, Deq 42, Enq 43])"
    "chan c = Some ch" "count ch = 1" "threads c 0 = Returned (SendRet 0)"
    "threads c 1 = Returned (RecvRet (Present 42))"
    by blast
  from C10_handoff_slot_allocated [OF a, of all_ok] r(1,2,3)
  have "buffer ch \<noteq> None \<and> (\<exists>ch' r. recv_locked ch = Inr (ch', r))" by auto
  with a r show ?thesis by blast
qed

end
